theory Spec2Isabelle
  imports Complex_Main "HOL-Library.AList" "HOL-Library.Multiset"
begin

section \<open>Data model of \<open>bipy/core/tree.py\<close>\<close>

text \<open>
  A \<open>TreeNode\<close> is a mutable object with parent and child references, so the tree lives
  in a store: a node reference is the address of the object (a \<open>nat\<close>), and the heap
  maps each address to the attributes of the object there. Python references never dangle,
  hence the heap is a total function. \<open>Name\<close> is taken to be a string, \<open>Length\<close> a real
  number (the data model's "optional non-negative real"); sums are written in the order
  the code adds. The attributes \<open>black\<close>, \<open>MaxDistTips\<close>, \<open>__start\<close> and \<open>__stop\<close> are
  set dynamically by the code: \<open>None\<close> stands for "the object has no such attribute".
  \<open>_node_cache\<close> is a dict; it is kept as an association list (empty list = empty dict).
\<close>

datatype error = DuplicateNodeError | MissingNodeError | NoParentError | NoLengthError
  | IndexError | AttributeError

record node =
  Name :: "string option"
  Length :: "real option"
  Parent :: "nat option"
  Children :: "nat list"
  node_cache :: "(string \<times> nat) list"
  black :: "nat list option"
  MaxDistTips :: "(nat \<times> nat) option"
  start_stop :: "(nat \<times> nat) option"

type_synonym heap = "nat \<Rightarrow> node"

text \<open>\<open>TreeNode(Name, Length, Parent)\<close>: the attributes \<open>__init__\<close> sets.\<close>

definition TreeNode :: "string option \<Rightarrow> real option \<Rightarrow> nat option \<Rightarrow> node" where
  "TreeNode nm len par = \<lparr>Name = nm, Length = len, Parent = par, Children = [],
     node_cache = [], black = None, MaxDistTips = None, start_stop = None\<rparr>"

section \<open>Traversals\<close>

text \<open>
  A generator is modelled by the list of the nodes it yields, in order. The loops follow
  child and parent references of an arbitrary heap and need not terminate there (a node
  can be its own child), so each loop is a \<open>partial_function\<close> in the option monad:
  \<open>None\<close> is "does not return". Python lists used as stacks keep their orientation:
  the top of the stack is the last element.
\<close>

partial_function (option) preorder_loop ::
  "heap \<Rightarrow> nat \<Rightarrow> bool \<Rightarrow> nat list \<Rightarrow> nat list \<Rightarrow> nat list option" where
  "preorder_loop h self include_self stack out =
     (if stack = [] then Some out
      else let cur = last stack;
               stack1 = butlast stack;
               out1 = (if include_self \<or> cur \<noteq> self then out @ [cur] else out);
               stack2 = (if Children (h cur) \<noteq> [] then stack1 @ rev (Children (h cur))
                         else stack1)
           in preorder_loop h self include_self stack2 out1)"

definition preorder :: "heap \<Rightarrow> nat \<Rightarrow> bool \<Rightarrow> nat list option" where
  "preorder h self include_self = preorder_loop h self include_self [self] []"

text \<open>
  \<open>postorder\<close>: \<open>curr_children\<close> and \<open>curr_children_len\<close> are always \<open>curr.Children\<close> and
  its length, so the loop state is the index stack, \<open>curr\<close> and the nodes yielded so far.
  \<open>child_index_stack[-1]\<close> on an empty list is an \<open>IndexError\<close>, \<open>curr.Parent.Children\<close>
  with no parent an \<open>AttributeError\<close>.
\<close>

partial_function (option) postorder_loop ::
  "heap \<Rightarrow> nat \<Rightarrow> bool \<Rightarrow> nat list \<Rightarrow> nat \<Rightarrow> nat list \<Rightarrow> (error + nat list) option" where
  "postorder_loop h self include_self child_index_stack cur out =
     (if child_index_stack = [] then Some (Inl IndexError)
      else let curr_index = last child_index_stack in
        if curr_index < length (Children (h cur)) then
          let curr_child = Children (h cur) ! curr_index in
          if Children (h curr_child) \<noteq> [] then
            postorder_loop h self include_self (child_index_stack @ [0]) curr_child out
          else
            postorder_loop h self include_self
              (butlast child_index_stack @ [curr_index + 1]) cur (out @ [curr_child])
        else
          let out1 = (if include_self \<or> cur \<noteq> self then out @ [cur] else out) in
          if cur = self then Some (Inr out1)
          else (case Parent (h cur) of
                  None \<Rightarrow> Some (Inl AttributeError)
                | Some p \<Rightarrow>
                    let stack1 = butlast child_index_stack in
                    if stack1 = [] then Some (Inl IndexError)
                    else postorder_loop h self include_self
                           (butlast stack1 @ [last stack1 + 1]) p out1))"

definition postorder :: "heap \<Rightarrow> nat \<Rightarrow> bool \<Rightarrow> (error + nat list) option" where
  "postorder h self include_self = postorder_loop h self include_self [0] self []"

partial_function (option) levelorder_loop ::
  "heap \<Rightarrow> nat \<Rightarrow> bool \<Rightarrow> nat list \<Rightarrow> nat list \<Rightarrow> nat list option" where
  "levelorder_loop h self include_self queue out =
     (if queue = [] then Some out
      else let cur = hd queue;
               queue1 = tl queue;
               out1 = (if include_self \<or> cur \<noteq> self then out @ [cur] else out);
               queue2 = (if Children (h cur) \<noteq> [] then queue1 @ Children (h cur)
                         else queue1)
           in levelorder_loop h self include_self queue2 out1)"

definition levelorder :: "heap \<Rightarrow> nat \<Rightarrow> bool \<Rightarrow> nat list option" where
  "levelorder h self include_self = levelorder_loop h self include_self [self] []"

text \<open>\<open>tips\<close>: the early exit for a tip, then the stack loop that yields childless nodes.\<close>

partial_function (option) tips_loop ::
  "heap \<Rightarrow> nat list \<Rightarrow> nat list \<Rightarrow> nat list option" where
  "tips_loop h stack out =
     (if stack = [] then Some out
      else let cur = last stack;
               stack1 = butlast stack
           in if Children (h cur) \<noteq> [] then tips_loop h (stack1 @ rev (Children (h cur))) out
              else tips_loop h stack1 (out @ [cur]))"

definition tips :: "heap \<Rightarrow> nat \<Rightarrow> bool \<Rightarrow> nat list option" where
  "tips h self include_self =
     (if Children (h self) = [] then (if include_self then Some [self] else Some [])
      else tips_loop h [self] [])"

section \<open>Name cache\<close>

definition invalidate_node_cache :: "heap \<Rightarrow> nat \<Rightarrow> heap" where
  "invalidate_node_cache h self = h(self := (h self)\<lparr>node_cache := []\<rparr>)"

text \<open>
  The body of the \<open>for\<close> loop of \<open>create_node_cache\<close> over the nodes of \<open>self.traverse()\<close>
  (a preorder with \<open>self\<close> included). The heap is returned in both outcomes: an exception
  leaves the store as it is at the \<open>raise\<close>.
\<close>

fun cache_nodes :: "heap \<Rightarrow> nat \<Rightarrow> nat list \<Rightarrow> heap \<times> (error + unit)" where
  "cache_nodes h self [] = (h, Inr ())"
| "cache_nodes h self (n # ns) =
     (case Name (h n) of
        None \<Rightarrow> cache_nodes h self ns
      | Some name \<Rightarrow>
          if map_of (node_cache (h self)) name \<noteq> None then (h, Inl DuplicateNodeError)
          else cache_nodes
                 (h(self := (h self)\<lparr>node_cache := AList.update name n (node_cache (h self))\<rparr>))
                 self ns)"

definition create_node_cache :: "heap \<Rightarrow> nat \<Rightarrow> (heap \<times> (error + unit)) option" where
  "create_node_cache h self =
     (if node_cache (h self) \<noteq> [] then Some (h, Inr ())
      else case preorder h self True of
             None \<Rightarrow> None
           | Some ns \<Rightarrow> Some (cache_nodes h self ns))"

text \<open>
  \<open>find\<close> takes a name or, by its \<open>isinstance\<close> test, a node that it returns unchanged.
\<close>

datatype key = ByName string | ByNode nat

definition find_node :: "heap \<Rightarrow> nat \<Rightarrow> key \<Rightarrow> (heap \<times> (error + nat)) option" where
  "find_node h self k =
     (case k of
        ByNode n \<Rightarrow> Some (h, Inr n)
      | ByName name \<Rightarrow>
          (case create_node_cache h self of
             None \<Rightarrow> None
           | Some (h1, Inl e) \<Rightarrow> Some (h1, Inl e)
           | Some (h1, Inr u) \<Rightarrow>
               (case map_of (node_cache (h1 self)) name of
                  None \<Rightarrow> Some (h1, Inl MissingNodeError)
                | Some n \<Rightarrow> Some (h1, Inr n))))"

section \<open>Lowest common ancestor\<close>

text \<open>\<open>[self.find(name) for name in tipnames]\<close>: the first failing lookup ends the call.\<close>

fun find_all :: "heap \<Rightarrow> nat \<Rightarrow> key list \<Rightarrow> (heap \<times> (error + nat list)) option" where
  "find_all h self [] = Some (h, Inr [])"
| "find_all h self (k # ks) =
     (case find_node h self k of
        None \<Rightarrow> None
      | Some (h1, Inl e) \<Rightarrow> Some (h1, Inl e)
      | Some (h1, Inr n) \<Rightarrow>
          (case find_all h1 self ks of
             None \<Rightarrow> None
           | Some (h2, Inl e) \<Rightarrow> Some (h2, Inl e)
           | Some (h2, Inr ns) \<Rightarrow> Some (h2, Inr (n # ns))))"

text \<open>
  \<open>while curr and not hasattr(curr, 'black')\<close>: \<open>TreeNode\<close> defines \<open>__len__\<close> as the number
  of children and no \<open>__nonzero__\<close>, so a node is true exactly when it has a child.
\<close>

definition truthy :: "heap \<Rightarrow> nat option \<Rightarrow> bool" where
  "truthy h cur = (case cur of None \<Rightarrow> False | Some c \<Rightarrow> Children (h c) \<noteq> [])"

partial_function (option) mark_up ::
  "heap \<Rightarrow> nat list \<Rightarrow> nat \<Rightarrow> nat option \<Rightarrow> (heap \<times> nat list \<times> nat \<times> nat option) option" where
  "mark_up h nodes_to_scrub prev cur =
     (case cur of
        None \<Rightarrow> Some (h, nodes_to_scrub, prev, cur)
      | Some c \<Rightarrow>
          if Children (h c) \<noteq> [] \<and> black (h c) = None then
            mark_up (h(c := (h c)\<lparr>black := Some [prev]\<rparr>)) (nodes_to_scrub @ [c]) c
              (Parent (h c))
          else Some (h, nodes_to_scrub, prev, cur))"

text \<open>The \<open>for t in tips\<close> loop; \<open>curr.black.append(prev)\<close> needs the attribute.\<close>

fun mark_tips :: "heap \<Rightarrow> nat list \<Rightarrow> nat list \<Rightarrow> (heap \<times> (error + nat list)) option" where
  "mark_tips h nodes_to_scrub [] = Some (h, Inr nodes_to_scrub)"
| "mark_tips h nodes_to_scrub (t # ts) =
     (case mark_up h nodes_to_scrub t (Parent (h t)) of
        None \<Rightarrow> None
      | Some (h1, scrub1, prev, cur) \<Rightarrow>
          if truthy h1 cur then
            (case black (h1 (the cur)) of
               None \<Rightarrow> Some (h1, Inl AttributeError)
             | Some bl \<Rightarrow>
                 mark_tips (h1((the cur) := (h1 (the cur))\<lparr>black := Some (bl @ [prev])\<rparr>))
                   scrub1 ts)
          else mark_tips h1 scrub1 ts)"

partial_function (option) descend :: "heap \<Rightarrow> nat \<Rightarrow> (error + nat) option" where
  "descend h cur =
     (case black (h cur) of
        None \<Rightarrow> Some (Inl AttributeError)
      | Some bl \<Rightarrow> if length bl = 1 then descend h (bl ! 0) else Some (Inr cur))"

fun scrub :: "heap \<Rightarrow> nat list \<Rightarrow> heap \<times> (error + unit)" where
  "scrub h [] = (h, Inr ())"
| "scrub h (n # ns) =
     (if black (h n) = None then (h, Inl AttributeError)
      else scrub (h(n := (h n)\<lparr>black := None\<rparr>)) ns)"

definition lowest_common_ancestor ::
  "heap \<Rightarrow> nat \<Rightarrow> key list \<Rightarrow> (heap \<times> (error + nat option)) option" where
  "lowest_common_ancestor h self tipnames =
     (if length tipnames = 1 then
        (case find_node h self (tipnames ! 0) of
           None \<Rightarrow> None
         | Some (h1, Inl e) \<Rightarrow> Some (h1, Inl e)
         | Some (h1, Inr n) \<Rightarrow> Some (h1, Inr (Some n)))
      else
        (case find_all h self tipnames of
           None \<Rightarrow> None
         | Some (h1, Inl e) \<Rightarrow> Some (h1, Inl e)
         | Some (h1, Inr tps) \<Rightarrow>
             if length tps = 0 then Some (h1, Inr None)
             else
               (case mark_tips h1 [] tps of
                  None \<Rightarrow> None
                | Some (h2, Inl e) \<Rightarrow> Some (h2, Inl e)
                | Some (h2, Inr nodes_to_scrub) \<Rightarrow>
                    (case descend h2 self of
                       None \<Rightarrow> None
                     | Some (Inl e) \<Rightarrow> Some (h2, Inl e)
                     | Some (Inr cur) \<Rightarrow>
                         (case scrub h2 nodes_to_scrub of
                            (h3, Inl e) \<Rightarrow> Some (h3, Inl e)
                          | (h3, Inr u) \<Rightarrow> Some (h3, Inr (Some cur)))))))"

section \<open>Topology updates\<close>

text \<open>
  Every operation returns the store together with its value or the exception it raises.
  \<open>list.pop(idx)\<close> counts a negative index from the end and raises \<open>IndexError\<close> out of
  range.
\<close>

definition list_pop :: "'a list \<Rightarrow> int \<Rightarrow> error + ('a \<times> 'a list)" where
  "list_pop xs idx =
     (let n = int (length xs);
          j = (if idx < 0 then idx + n else idx)
      in if 0 \<le> j \<and> j < n then Inr (xs ! nat j, take (nat j) xs @ drop (Suc (nat j)) xs)
         else Inl IndexError)"

definition remove_node :: "heap \<Rightarrow> nat \<Rightarrow> int \<Rightarrow> heap \<times> (error + nat)" where
  "remove_node h self idx =
     (let h1 = invalidate_node_cache h self in
      case list_pop (Children (h1 self)) idx of
        Inl e \<Rightarrow> (h1, Inl e)
      | Inr (node, rest) \<Rightarrow>
          (let h2 = h1(self := (h1 self)\<lparr>Children := rest\<rparr>)
           in (h2(node := (h2 node)\<lparr>Parent := None\<rparr>), Inr node)))"

definition pop :: "heap \<Rightarrow> nat \<Rightarrow> int \<Rightarrow> heap \<times> (error + nat)" where
  "pop h self index = remove_node (invalidate_node_cache h self) self index"

text \<open>The \<open>enumerate\<close> loop of \<open>remove\<close>: the position of the first child that is \<open>node\<close>.\<close>

fun first_index :: "nat list \<Rightarrow> nat \<Rightarrow> nat \<Rightarrow> nat option" where
  "first_index [] node i = None"
| "first_index (curr_node # rest) node i =
     (if curr_node = node then Some i else first_index rest node (i + 1))"

definition remove' :: "heap \<Rightarrow> nat \<Rightarrow> nat \<Rightarrow> heap \<times> (error + bool)" where
  "remove' h self node =
     (case first_index (Children (h self)) node 0 of
        Some i \<Rightarrow>
          (case remove_node h self (int i) of
             (h1, Inl e) \<Rightarrow> (h1, Inl e)
           | (h1, Inr n) \<Rightarrow> (h1, Inr True))
      | None \<Rightarrow> (invalidate_node_cache h self, Inr False))"

definition adopt :: "heap \<Rightarrow> nat \<Rightarrow> nat \<Rightarrow> heap \<times> (error + nat)" where
  "adopt h self node =
     (case (case Parent (h node) of
              None \<Rightarrow> (h, Inr False)
            | Some p \<Rightarrow> remove' h p node) of
        (h1, Inl e) \<Rightarrow> (h1, Inl e)
      | (h1, Inr b) \<Rightarrow>
          (invalidate_node_cache (h1(node := (h1 node)\<lparr>Parent := Some self\<rparr>)) self,
           Inr node))"

definition append' :: "heap \<Rightarrow> nat \<Rightarrow> nat \<Rightarrow> heap \<times> (error + unit)" where
  "append' h self node =
     (case adopt h self node of
        (h1, Inl e) \<Rightarrow> (h1, Inl e)
      | (h1, Inr n) \<Rightarrow>
          (invalidate_node_cache
             (h1(self := (h1 self)\<lparr>Children := Children (h1 self) @ [n]\<rparr>)) self,
           Inr ()))"

text \<open>\<open>map(self._adopt, nodes)\<close> of Python 2 adopts every node before \<open>extend\<close> runs.\<close>

fun adopt_all :: "heap \<Rightarrow> nat \<Rightarrow> nat list \<Rightarrow> heap \<times> (error + nat list)" where
  "adopt_all h self [] = (h, Inr [])"
| "adopt_all h self (node # nodes) =
     (case adopt h self node of
        (h1, Inl e) \<Rightarrow> (h1, Inl e)
      | (h1, Inr n) \<Rightarrow>
          (case adopt_all h1 self nodes of
             (h2, Inl e) \<Rightarrow> (h2, Inl e)
           | (h2, Inr ns) \<Rightarrow> (h2, Inr (n # ns))))"

definition extend' :: "heap \<Rightarrow> nat \<Rightarrow> nat list \<Rightarrow> heap \<times> (error + unit)" where
  "extend' h self nodes =
     (case adopt_all h self nodes of
        (h1, Inl e) \<Rightarrow> (h1, Inl e)
      | (h1, Inr ns) \<Rightarrow>
          (invalidate_node_cache
             (h1(self := (h1 self)\<lparr>Children := Children (h1 self) @ ns\<rparr>)) self,
           Inr ()))"

text \<open>
  The second loop of \<open>prune\<close>, over \<open>nodes_to_remove\<close>:
  \<open>node.Parent.append(node.Children[0]); node.Parent.remove(node)\<close>.
\<close>

fun prune_nodes :: "heap \<Rightarrow> nat list \<Rightarrow> heap \<times> (error + unit)" where
  "prune_nodes h [] = (h, Inr ())"
| "prune_nodes h (node # nodes) =
     (case Parent (h node) of
        None \<Rightarrow> (h, Inl AttributeError)
      | Some p \<Rightarrow>
          (case Children (h node) of
             [] \<Rightarrow> (h, Inl IndexError)
           | c # cs \<Rightarrow>
               (case append' h p c of
                  (h1, Inl e) \<Rightarrow> (h1, Inl e)
                | (h1, Inr u) \<Rightarrow>
                    (case Parent (h1 node) of
                       None \<Rightarrow> (h1, Inl AttributeError)
                     | Some p1 \<Rightarrow>
                         (case remove' h1 p1 node of
                            (h2, Inl e) \<Rightarrow> (h2, Inl e)
                          | (h2, Inr b) \<Rightarrow> prune_nodes h2 nodes)))))"

definition prune :: "heap \<Rightarrow> nat \<Rightarrow> (heap \<times> (error + unit)) option" where
  "prune h self =
     (case preorder h self False of
        None \<Rightarrow> None
      | Some ns \<Rightarrow>
          (let nodes_to_remove = filter (\<lambda>node. length (Children (h node)) = 1) ns
           in case prune_nodes h nodes_to_remove of
                (h1, Inl e) \<Rightarrow> Some (h1, Inl e)
              | (h1, Inr u) \<Rightarrow> Some (invalidate_node_cache h1 self, Inr ())))"

section \<open>Distances\<close>

partial_function (option) accumulate_loop ::
  "heap \<Rightarrow> nat \<Rightarrow> real \<Rightarrow> nat \<Rightarrow> (error + real) option" where
  "accumulate_loop h ancestor accum cur =
     (if cur \<noteq> ancestor then
        (case Parent (h cur) of
           None \<Rightarrow> Some (Inl NoParentError)
         | Some p \<Rightarrow>
             (case Length (h cur) of
                None \<Rightarrow> Some (Inl NoLengthError)
              | Some l \<Rightarrow> accumulate_loop h ancestor (accum + l) p))
      else Some (Inr accum))"

definition accumulate_to_ancestor :: "heap \<Rightarrow> nat \<Rightarrow> nat \<Rightarrow> (error + real) option" where
  "accumulate_to_ancestor h self ancestor = accumulate_loop h ancestor 0 self"

text \<open>
  The diameter memo. \<open>MaxDistTips\<close> is a list of two lists \<open>[dist, tip]\<close>; the code adds
  to \<open>tip_a[0]\<close> in place and stores the same list objects in the parent, so the inner
  lists are shared between nodes. They live in a store of their own: \<open>MaxDistTips\<close> holds
  the two addresses, \<open>fresh\<close> is the next unused address. \<open>max\<close> of two such lists follows
  Python 2: the first list unless the second is greater, lists compared item by item,
  and two distinct nodes (no comparison methods) by address. \<open>argsort\<close> is numpy's and is
  a parameter; \<open>x or 0.0\<close> is \<open>0.0\<close> for a missing length.
\<close>

record memo =
  heap_of :: heap
  cells :: "nat \<Rightarrow> real \<times> nat"
  fresh :: nat

definition list_gt :: "real \<times> nat \<Rightarrow> real \<times> nat \<Rightarrow> bool" where
  "list_gt y x = (if fst y \<noteq> fst x then fst y > fst x else snd y > snd x)"

definition max_cell :: "(nat \<Rightarrow> real \<times> nat) \<Rightarrow> nat \<times> nat \<Rightarrow> nat" where
  "max_cell cs mdt = (if list_gt (cs (snd mdt)) (cs (fst mdt)) then snd mdt else fst mdt)"

definition length_or_zero :: "heap \<Rightarrow> nat \<Rightarrow> real" where
  "length_or_zero h n = (case Length (h n) of None \<Rightarrow> 0 | Some l \<Rightarrow> l)"

definition add_to_cell :: "(nat \<Rightarrow> real \<times> nat) \<Rightarrow> nat \<Rightarrow> real \<Rightarrow> (nat \<Rightarrow> real \<times> nat)" where
  "add_to_cell cs a l = cs(a := (fst (cs a) + l, snd (cs a)))"

text \<open>\<open>[(max(c.MaxDistTips), c) for c in n.Children]\<close>\<close>

fun tip_info_of :: "memo \<Rightarrow> nat list \<Rightarrow> error + (nat \<times> nat) list" where
  "tip_info_of m [] = Inr []"
| "tip_info_of m (c # cs) =
     (case MaxDistTips (heap_of m c) of
        None \<Rightarrow> Inl AttributeError
      | Some mdt \<Rightarrow>
          (case tip_info_of m cs of
             Inl e \<Rightarrow> Inl e
           | Inr rest \<Rightarrow> Inr ((max_cell (cells m) mdt, c) # rest)))"

definition set_MaxDistTips :: "memo \<Rightarrow> nat \<Rightarrow> nat \<Rightarrow> nat \<Rightarrow> memo" where
  "set_MaxDistTips m n tip_a tip_b =
     m\<lparr>heap_of := (heap_of m)(n := (heap_of m n)\<lparr>MaxDistTips := Some (tip_a, tip_b)\<rparr>)\<rparr>"

text \<open>The body of the loop of \<open>_set_max_distance\<close> for one node \<open>n\<close>.\<close>

definition set_max_distance_node ::
  "(real list \<Rightarrow> nat list) \<Rightarrow> memo \<Rightarrow> nat \<Rightarrow> memo \<times> (error + unit)" where
  "set_max_distance_node argsort m n =
     (let h = heap_of m in
      if Children (h n) = [] then
        (let a = fresh m;
             m1 = m\<lparr>cells := (cells m)(a := (0, n), a + 1 := (0, n)), fresh := a + 2\<rparr>
         in (set_MaxDistTips m1 n a (a + 1), Inr ()))
      else if length (Children (h n)) = 1 then
        (case MaxDistTips (h (Children (h n) ! 0)) of
           None \<Rightarrow> (m, Inl AttributeError)
         | Some (tip_a, tip_b) \<Rightarrow>
             (let l = length_or_zero h (Children (h n) ! 0);
                  cs1 = add_to_cell (cells m) tip_a l;
                  cs2 = add_to_cell cs1 tip_b l
              in (set_MaxDistTips (m\<lparr>cells := cs2\<rparr>) n tip_a tip_b, Inr ())))
      else
        (case tip_info_of m (Children (h n)) of
           Inl e \<Rightarrow> (m, Inl e)
         | Inr tip_info \<Rightarrow>
             (let dists = map (\<lambda>i. fst (cells m (fst i))) tip_info;
                  sorted_idx = argsort dists;
                  best_idx = drop (length sorted_idx - 2) sorted_idx
              in if length best_idx < 2 \<or> best_idx ! 0 \<ge> length tip_info
                    \<or> best_idx ! 1 \<ge> length tip_info
                 then (m, Inl IndexError)
                 else
                   (let (tip_a, child_a) = tip_info ! (best_idx ! 0);
                        (tip_b, child_b) = tip_info ! (best_idx ! 1);
                        cs1 = add_to_cell (cells m) tip_a (length_or_zero h child_a);
                        cs2 = add_to_cell cs1 tip_b (length_or_zero h child_b)
                    in (set_MaxDistTips (m\<lparr>cells := cs2\<rparr>) n tip_a tip_b, Inr ())))))"

fun set_max_distance_nodes ::
  "(real list \<Rightarrow> nat list) \<Rightarrow> memo \<Rightarrow> nat list \<Rightarrow> memo \<times> (error + unit)" where
  "set_max_distance_nodes argsort m [] = (m, Inr ())"
| "set_max_distance_nodes argsort m (n # ns) =
     (case set_max_distance_node argsort m n of
        (m1, Inl e) \<Rightarrow> (m1, Inl e)
      | (m1, Inr u) \<Rightarrow> set_max_distance_nodes argsort m1 ns)"

definition set_max_distance ::
  "(real list \<Rightarrow> nat list) \<Rightarrow> memo \<Rightarrow> nat \<Rightarrow> (memo \<times> (error + unit)) option" where
  "set_max_distance argsort m self =
     (case postorder (heap_of m) self True of
        None \<Rightarrow> None
      | Some (Inl e) \<Rightarrow> Some (m, Inl e)
      | Some (Inr ns) \<Rightarrow> Some (set_max_distance_nodes argsort m ns))"

text \<open>\<open>non_tips\<close>: the nodes of the preorder that have children.\<close>

definition non_tips :: "heap \<Rightarrow> nat \<Rightarrow> bool \<Rightarrow> nat list option" where
  "non_tips h self include_self =
     map_option (filter (\<lambda>n. Children (h n) \<noteq> [])) (preorder h self include_self)"

text \<open>The loop of \<open>get_max_distance\<close> over the non-tips, carrying \<open>longest\<close> and \<open>tips\<close>.\<close>

fun longest_of ::
  "memo \<Rightarrow> real \<times> nat option \<times> nat option \<Rightarrow> nat list
     \<Rightarrow> error + (real \<times> nat option \<times> nat option)" where
  "longest_of m best [] = Inr best"
| "longest_of m best (n # ns) =
     (case MaxDistTips (heap_of m n) of
        None \<Rightarrow> Inl AttributeError
      | Some (tip_a, tip_b) \<Rightarrow>
          (let dist = fst (cells m tip_a) + fst (cells m tip_b)
           in if dist > fst best
              then longest_of m (dist, Some (snd (cells m tip_a)), Some (snd (cells m tip_b))) ns
              else longest_of m best ns))"

definition get_max_distance ::
  "(real list \<Rightarrow> nat list) \<Rightarrow> memo \<Rightarrow> nat
     \<Rightarrow> (memo \<times> (error + (real \<times> nat option \<times> nat option))) option" where
  "get_max_distance argsort m self =
     (case (if MaxDistTips (heap_of m self) = None then set_max_distance argsort m self
            else Some (m, Inr ())) of
        None \<Rightarrow> None
      | Some (m1, Inl e) \<Rightarrow> Some (m1, Inl e)
      | Some (m1, Inr u) \<Rightarrow>
          (case non_tips (heap_of m1) self True of
             None \<Rightarrow> None
           | Some ns \<Rightarrow> Some (m1, longest_of m1 (0, None, None) ns)))"

section \<open>Newick output\<close>

text \<open>
  The name of a node as \<open>to_newick\<close> writes it (lines 534 to 543). The character class of
  the regular expression is \<open>]['"(),:;_\<close>.
\<close>

definition quote :: char where
  "quote = CHR 0x27"

definition newick_specials :: "char list" where
  "newick_specials = [CHR '']'', CHR ''['', CHR 0x27, CHR 0x22, CHR ''('', CHR '')'',
     CHR '','', CHR '':'', CHR '';'', CHR ''_'']"

definition double_quotes :: "string \<Rightarrow> string" where
  "double_quotes name = concat (map (\<lambda>c. if c = quote then [quote, quote] else [c]) name)"

definition spaces_to_underscores :: "string \<Rightarrow> string" where
  "spaces_to_underscores name = map (\<lambda>c. if c = CHR '' '' then CHR ''_'' else c) name"

definition newick_name :: "bool \<Rightarrow> string option \<Rightarrow> string" where
  "newick_name escape_name nm =
     (case nm of
        None \<Rightarrow> []
      | Some name \<Rightarrow>
          if escape_name \<and> \<not> (name \<noteq> [] \<and> hd name = quote \<and> last name = quote) then
            (if \<exists>c \<in> set name. c \<in> set newick_specials
             then [quote] @ double_quotes name @ [quote]
             else spaces_to_underscores name)
          else name)"

text \<open>
  The stack loop of \<open>to_newick\<close>. \<open>str_of\<close> is Python's \<open>str\<close> of a length, a parameter.
  \<open>top_node.Children[-k]\<close> is the child at \<open>len - k\<close> and an \<open>IndexError\<close> when \<open>k > len\<close>;
  \<open>result[-1] = ')'\<close> replaces the last element.
\<close>

partial_function (option) to_newick_loop ::
  "heap \<Rightarrow> (real \<Rightarrow> string) \<Rightarrow> bool \<Rightarrow> bool \<Rightarrow> (nat \<times> nat) list \<Rightarrow> string list
     \<Rightarrow> (error + string list) option" where
  "to_newick_loop h str_of with_distances escape_name nodes_stack result =
     (if nodes_stack = [] then Some (Inr result)
      else
        let top_node = fst (last nodes_stack);
            num_unvisited_children = snd (last nodes_stack)
        in
        if num_unvisited_children \<noteq> 0 then
          (if num_unvisited_children > length (Children (h top_node)) then Some (Inl IndexError)
           else
             let next_child =
                   Children (h top_node) ! (length (Children (h top_node)) - num_unvisited_children);
                 result1 = (if Children (h next_child) \<noteq> [] then result @ [''(''] else result)
             in to_newick_loop h str_of with_distances escape_name
                  (butlast nodes_stack @ [(top_node, num_unvisited_children - 1),
                     (next_child, length (Children (h next_child)))])
                  result1)
        else
          (if result = [] then Some (Inl IndexError)
           else
             let result1 = (if Children (h top_node) \<noteq> [] then butlast result @ ['')'']
                            else result);
                 name = newick_name escape_name (Name (h top_node));
                 result2 = result1 @ [name];
                 result3 = (case Length (h top_node) of
                              None \<Rightarrow> result2
                            | Some l \<Rightarrow>
                                if with_distances
                                then butlast result2 @ [last result2 @ '':'' @ str_of l]
                                else result2)
             in to_newick_loop h str_of with_distances escape_name
                  (butlast nodes_stack) (result3 @ ['',''])))"

definition to_newick ::
  "heap \<Rightarrow> (real \<Rightarrow> string) \<Rightarrow> nat \<Rightarrow> bool \<Rightarrow> bool \<Rightarrow> bool \<Rightarrow> (error + string) option" where
  "to_newick h str_of self with_distances semicolon escape_name =
     (case to_newick_loop h str_of with_distances escape_name
             [(self, length (Children (h self)))] [''(''] of
        None \<Rightarrow> None
      | Some (Inl e) \<Rightarrow> Some (Inl e)
      | Some (Inr result) \<Rightarrow>
          Some (Inr
            (if length result = 2 then (if semicolon then '';'' else [])
             else if length result = 3 then (if semicolon then result ! 1 @ '';'' else result ! 1)
             else if semicolon then concat (butlast result @ ['';''])
             else concat (butlast result))))"

section \<open>Example trees\<close>


section \<open>Parent chains\<close>

text \<open>
  \<open>parent_chain h [n, p, ..., r]\<close>: each node of the list is the parent of the one before
  it and the last has no parent, so the list is the walk from \<open>n\<close> to the root.
  \<open>traversed ancestor chain\<close> are the nodes whose branch the walk of
  \<open>_accumulate_to_ancestor\<close> crosses: those before \<open>ancestor\<close> when it is on the chain, all
  but the root otherwise. \<open>accumulate_spec\<close> is the contract in the words of the
  specification: the no-length error when a crossed branch has no length, else the sum of
  the crossed lengths when the ancestor is met, else the no-parent error.
\<close>

fun parent_chain :: "heap \<Rightarrow> nat list \<Rightarrow> bool" where
  "parent_chain h [] = False"
| "parent_chain h [r] = (Parent (h r) = None)"
| "parent_chain h (c # p # cs) = (Parent (h c) = Some p \<and> parent_chain h (p # cs))"

definition traversed :: "nat \<Rightarrow> nat list \<Rightarrow> nat list" where
  "traversed ancestor chain =
     (if ancestor \<in> set chain then takeWhile (\<lambda>c. c \<noteq> ancestor) chain else butlast chain)"

definition accumulate_spec :: "heap \<Rightarrow> nat \<Rightarrow> nat list \<Rightarrow> error + real" where
  "accumulate_spec h ancestor chain =
     (if list_ex (\<lambda>c. Length (h c) = None) (traversed ancestor chain) then Inl NoLengthError
      else if ancestor \<in> set chain
           then Inr (sum_list (map (\<lambda>c. the (Length (h c))) (traversed ancestor chain)))
           else Inl NoParentError)"

section \<open>Further example trees\<close>




text \<open>
  A root with the tip \<open>A\<close> at length 1 and a detached tip \<open>B\<close> of length 5. \<open>c3_memo1\<close> is
  the state after the first \<open>get_max_distance\<close>, \<open>c3_memo2\<close> that state after \<open>B\<close> was
  appended to the root, \<open>c3_fresh\<close> the appended tree with no memo at all.
  \<open>stable_argsort\<close> is the instance of numpy's \<open>argsort\<close> used in the examples: ties keep
  their order.
\<close>

definition stable_argsort :: "real list \<Rightarrow> nat list" where
  "stable_argsort ds = map snd (sort_key fst (zip ds [0..<length ds]))"

definition c3_heap :: heap where
  "c3_heap = (\<lambda>a. TreeNode None None None)
     (0 := (TreeNode (Some ''r'') None None)\<lparr>Children := [2]\<rparr>,
      2 := TreeNode (Some ''A'') (Some 1) (Some 0),
      3 := TreeNode (Some ''B'') (Some 5) None)"

definition c3_memo :: memo where
  "c3_memo = \<lparr>heap_of = c3_heap, cells = (\<lambda>a. (0, 0)), fresh = 0\<rparr>"

definition c3_memo1 :: memo where
  "c3_memo1 = \<lparr>heap_of = c3_heap(2 := (c3_heap 2)\<lparr>MaxDistTips := Some (0, 1)\<rparr>,
                                   0 := (c3_heap 0)\<lparr>MaxDistTips := Some (0, 1)\<rparr>),
               cells = (\<lambda>a. (0, 0))(0 := (1, 2), 1 := (1, 2)), fresh = 2\<rparr>"

definition c3_memo2 :: memo where
  "c3_memo2 = c3_memo1\<lparr>heap_of := fst (append' (heap_of c3_memo1) 0 3)\<rparr>"

definition c3_fresh :: memo where
  "c3_fresh = \<lparr>heap_of = fst (append' c3_heap 0 3), cells = (\<lambda>a. (0, 0)), fresh = 0\<rparr>"

text \<open>
  A tip \<open>t\<close> under a parent \<open>p\<close>; the store after the lookups of
  \<open>t.lowest_common_ancestor(['t', 't'])\<close>, and the store that call leaves.
\<close>

definition lca_heap :: heap where
  "lca_heap = (\<lambda>a. TreeNode None None None)
     (0 := (TreeNode (Some ''p'') None None)\<lparr>Children := [2]\<rparr>,
      2 := TreeNode (Some ''t'') None (Some 0))"

definition lca_cached :: heap where
  "lca_cached = lca_heap(2 := (lca_heap 2)\<lparr>node_cache := [(''t'', 2)]\<rparr>)"

definition lca_after :: heap where
  "lca_after = lca_cached(0 := (lca_cached 0)\<lparr>black := Some [2, 2]\<rparr>)"

text \<open>A root with the children 2 (length 2, one child 3 of length 3) and 4 (no length).\<close>

definition chain_heap :: heap where
  "chain_heap = (\<lambda>a. TreeNode None None None)
     (0 := (TreeNode None None None)\<lparr>Children := [2, 4]\<rparr>,
      2 := (TreeNode None (Some 2) (Some 0))\<lparr>Children := [3]\<rparr>,
      3 := TreeNode None (Some 3) (Some 2),
      4 := TreeNode None None (Some 0))"

text \<open>
  A lone node whose name is \<open>'a'\<close>, quotes included; \<open>str_blank\<close> stands for Python's
  \<open>str\<close> where no length is printed.
\<close>

definition quoted_heap :: heap where
  "quoted_heap = (\<lambda>a. TreeNode None None None)(0 := TreeNode (Some [quote, CHR ''a'', quote]) None None)"

definition str_blank :: "real \<Rightarrow> string" where
  "str_blank l = []"

section \<open>Trees in the store\<close>

text \<open>
  The claims about "every tree" range over the stores that hold a tree. \<open>tree_at h t\<close>
  says that the store \<open>h\<close> holds the abstract tree \<open>t\<close>: each node of \<open>t\<close> has as
  \<open>Children\<close> the roots of its subtrees, in order, and each child has that node as
  \<open>Parent\<close> (the parent/children invariant of the data model). \<open>is_tree\<close> adds that no
  node occurs twice (acyclic, one parent per node). \<open>nodes_of\<close> lists the nodes of a tree,
  \<open>reachable\<close> is the set of nodes reached from a node by child references.
\<close>

datatype tree = Node (root: nat) (kids: "tree list")

fun nodes_of :: "tree \<Rightarrow> nat list" where
  "nodes_of (Node n ts) = n # concat (map nodes_of ts)"

fun tree_at :: "heap \<Rightarrow> tree \<Rightarrow> bool" where
  "tree_at h (Node n ts) =
     (Children (h n) = map root ts
      \<and> (\<forall>t \<in> set ts. Parent (h (root t)) = Some n \<and> tree_at h t))"

definition is_tree :: "heap \<Rightarrow> tree \<Rightarrow> bool" where
  "is_tree h t = (tree_at h t \<and> distinct (nodes_of t))"

definition reachable :: "heap \<Rightarrow> nat \<Rightarrow> nat set" where
  "reachable h r = {x. (r, x) \<in> rtrancl {(a, b). b \<in> set (Children (h a))}}"

text \<open>
  The naive recursive postorder: the postorders of the children, in child order, then
  the node. \<open>bfs\<close> is the breadth-first order of a forest. \<open>yielded\<close> drops the start
  node from a sequence when \<open>include_self\<close> is false.
\<close>

fun postorder_rec :: "tree \<Rightarrow> nat list" where
  "postorder_rec (Node n ts) = concat (map postorder_rec ts) @ [n]"

function bfs :: "tree list \<Rightarrow> nat list" where
  "bfs [] = []"
| "bfs (Node n ks # ts) = n # bfs (ts @ ks)"
  by pat_completeness auto
termination
  by (relation "measure (\<lambda>ts. sum_list (map size ts))")
     (auto simp: size_list_conv_sum_list)

definition yielded :: "bool \<Rightarrow> nat \<Rightarrow> nat list \<Rightarrow> nat list" where
  "yielded include_self self xs = filter (\<lambda>x. include_self \<or> x \<noteq> self) xs"

text \<open>
  The Newick text of a tree, by recursion: the comma-joined texts of the children in
  parentheses (for an inner node), then the label of the node, which is its name as
  \<open>newick_name\<close> writes it followed by \<open>:length\<close> when lengths are requested and present.
  \<open>tokens\<close> is the list of strings the loop of \<open>to_newick\<close> appends for a subtree.
\<close>

definition newick_label :: "heap \<Rightarrow> (real \<Rightarrow> string) \<Rightarrow> bool \<Rightarrow> bool \<Rightarrow> nat \<Rightarrow> string" where
  "newick_label h str_of with_distances escape_name n =
     newick_name escape_name (Name (h n)) @
     (case Length (h n) of
        None \<Rightarrow> []
      | Some l \<Rightarrow> if with_distances then '':'' @ str_of l else [])"

fun join_commas :: "string list \<Rightarrow> string" where
  "join_commas [] = []"
| "join_commas [x] = x"
| "join_commas (x # y # xs) = x @ '','' @ join_commas (y # xs)"

fun newick_rec :: "heap \<Rightarrow> (real \<Rightarrow> string) \<Rightarrow> bool \<Rightarrow> bool \<Rightarrow> tree \<Rightarrow> string" where
  "newick_rec h str_of with_distances escape_name (Node n ts) =
     (if ts = [] then []
      else ''('' @ join_commas (map (newick_rec h str_of with_distances escape_name) ts) @ '')'')
     @ newick_label h str_of with_distances escape_name n"

fun tokens :: "heap \<Rightarrow> (real \<Rightarrow> string) \<Rightarrow> bool \<Rightarrow> bool \<Rightarrow> tree \<Rightarrow> string list" where
  "tokens h str_of with_distances escape_name (Node n ts) =
     (if ts = [] then []
      else [''(''] @ butlast (concat (map (tokens h str_of with_distances escape_name) ts)) @ ['')''])
     @ [newick_label h str_of with_distances escape_name n, '','']"

definition open_paren :: "tree \<Rightarrow> string list" where
  "open_paren t = (if kids t = [] then [] else [''(''])"

text \<open>The tree held by \<open>chain_heap\<close>, and a tree with names that need escaping.\<close>

definition chain_tree :: tree where
  "chain_tree = Node 0 [Node 2 [Node 3 []], Node 4 []]"

definition newick_heap :: heap where
  "newick_heap = (\<lambda>a. TreeNode None None None)
     (0 := (TreeNode (Some ''root node'') None None)\<lparr>Children := [2, 3]\<rparr>,
      2 := TreeNode (Some ''a_b'') None (Some 0),
      3 := TreeNode (Some [quote, CHR ''q'', quote]) None (Some 0))"

definition newick_tree :: tree where
  "newick_tree = Node 0 [Node 2 [], Node 3 []]"

section \<open>Tip-to-tip distances\<close>

text \<open>
  \<open>tip_tip_distances\<close>. The two private attributes \<open>__start\<close> and \<open>__stop\<close> that the
  method adds to the nodes are the field \<open>start_stop\<close>. The numpy arrays \<open>distances\<close> and
  \<open>result\<close> are a list of reals and a list of rows; \<open>result_map\<close> is a dict from the slice
  start of a tip to its row in the result, kept as an association list.

  \<open>for i, node in enumerate(all_tips): node.__start, node.__stop = i, i+1\<close>:
\<close>

fun set_tip_slices :: "heap \<Rightarrow> nat \<Rightarrow> nat list \<Rightarrow> heap" where
  "set_tip_slices h i [] = h"
| "set_tip_slices h i (node # rest) =
     set_tip_slices (h(node := (h node)\<lparr>start_stop := Some (i, i + 1)\<rparr>)) (i + 1) rest"

text \<open>
  \<open>{n.__start: i for i, n in enumerate(tip_order)}\<close>; reading \<open>__start\<close> of a node that
  was never given one raises \<open>AttributeError\<close>.
\<close>

fun result_map_of ::
  "heap \<Rightarrow> nat \<Rightarrow> nat list \<Rightarrow> (nat \<times> nat) list \<Rightarrow> error + (nat \<times> nat) list" where
  "result_map_of h i [] m = Inr m"
| "result_map_of h i (n # ns) m =
     (case start_stop (h n) of
        None \<Rightarrow> Inl AttributeError
      | Some (start, stop) \<Rightarrow> result_map_of h (i + 1) ns (AList.update start i m))"

text \<open>
  \<open>distances[child.__start:child.__stop] += child_len\<close>: a numpy slice is clipped to the
  array, so only the positions that exist are changed. \<open>add_children\<close> is the loop over
  \<open>node.Children\<close> that also collects \<open>starts\<close> and \<open>stops\<close>.
\<close>

definition add_slice :: "real list \<Rightarrow> nat \<Rightarrow> nat \<Rightarrow> real \<Rightarrow> real list" where
  "add_slice distances start stop child_len =
     map (\<lambda>(i, d). if start \<le> i \<and> i < stop then d + child_len else d)
       (zip [0..<length distances] distances)"

fun add_children ::
  "heap \<Rightarrow> real \<Rightarrow> real list \<Rightarrow> nat list \<Rightarrow> nat list \<Rightarrow> nat list
     \<Rightarrow> error + (real list \<times> nat list \<times> nat list)" where
  "add_children h default_length distances starts stops [] = Inr (distances, starts, stops)"
| "add_children h default_length distances starts stops (child # rest) =
     (let child_len = (case Length (h child) of Some l \<Rightarrow> l | None \<Rightarrow> default_length)
      in case start_stop (h child) of
           None \<Rightarrow> Inl AttributeError
         | Some (start, stop) \<Rightarrow>
             add_children h default_length (add_slice distances start stop child_len)
               (starts @ [start]) (stops @ [stop]) rest)"

text \<open>
  \<open>min(starts)\<close> and \<open>max(stops)\<close>, used on the non-empty lists of a node with a child.
\<close>

definition list_min :: "nat list \<Rightarrow> nat" where
  "list_min xs = fold min (tl xs) (hd xs)"

definition list_max :: "nat list \<Rightarrow> nat" where
  "list_max xs = fold max (tl xs) (hd xs)"

text \<open>
  \<open>itertools.combinations(node.Children, 2)\<close>: the pairs in lexicographic order of
  positions.
\<close>

fun combinations2 :: "'a list \<Rightarrow> ('a \<times> 'a) list" where
  "combinations2 [] = []"
| "combinations2 (x # xs) = map (Pair x) xs @ combinations2 xs"

text \<open>
  The nested function \<open>update_result\<close>: for each pair of children, for each \<open>tip1\<close> in the
  slice of the first and each \<open>tip2\<close> in the slice of the second, both known to
  \<open>result_map\<close>, \<open>result[t1idx, t2idx] = distances[tip1] + distances[tip2]\<close>. An index
  outside an array raises \<open>IndexError\<close>.
\<close>

fun update_tip2 ::
  "(nat \<times> nat) list \<Rightarrow> real list \<Rightarrow> nat \<Rightarrow> nat \<Rightarrow> real list list \<Rightarrow> nat list
     \<Rightarrow> error + real list list" where
  "update_tip2 result_map distances tip1 t1idx result [] = Inr result"
| "update_tip2 result_map distances tip1 t1idx result (tip2 # rest) =
     (case map_of result_map tip2 of
        None \<Rightarrow> update_tip2 result_map distances tip1 t1idx result rest
      | Some t2idx \<Rightarrow>
          if tip1 \<ge> length distances \<or> tip2 \<ge> length distances
             \<or> t1idx \<ge> length result \<or> t2idx \<ge> length (result ! t1idx)
          then Inl IndexError
          else update_tip2 result_map distances tip1 t1idx
                 (result[t1idx := (result ! t1idx)[t2idx := distances ! tip1 + distances ! tip2]])
                 rest)"

fun update_tip1 ::
  "(nat \<times> nat) list \<Rightarrow> real list \<Rightarrow> real list list \<Rightarrow> nat list \<Rightarrow> nat list
     \<Rightarrow> error + real list list" where
  "update_tip1 result_map distances result [] range2 = Inr result"
| "update_tip1 result_map distances result (tip1 # rest) range2 =
     (case map_of result_map tip1 of
        None \<Rightarrow> update_tip1 result_map distances result rest range2
      | Some t1idx \<Rightarrow>
          (case update_tip2 result_map distances tip1 t1idx result range2 of
             Inl e \<Rightarrow> Inl e
           | Inr result1 \<Rightarrow> update_tip1 result_map distances result1 rest range2))"

fun update_pairs ::
  "heap \<Rightarrow> (nat \<times> nat) list \<Rightarrow> real list \<Rightarrow> real list list \<Rightarrow> (nat \<times> nat) list
     \<Rightarrow> error + real list list" where
  "update_pairs h result_map distances result [] = Inr result"
| "update_pairs h result_map distances result ((child1, child2) # rest) =
     (case start_stop (h child1) of
        None \<Rightarrow> Inl AttributeError
      | Some (start1, stop1) \<Rightarrow>
          (case start_stop (h child2) of
             None \<Rightarrow> Inl AttributeError
           | Some (start2, stop2) \<Rightarrow>
               (case update_tip1 result_map distances result [start1..<stop1] [start2..<stop2] of
                  Inl e \<Rightarrow> Inl e
                | Inr result1 \<Rightarrow> update_pairs h result_map distances result1 rest)))"

definition update_result ::
  "heap \<Rightarrow> (nat \<times> nat) list \<Rightarrow> real list \<Rightarrow> real list list \<Rightarrow> nat
     \<Rightarrow> error + real list list" where
  "update_result h result_map distances result node =
     update_pairs h result_map distances result (combinations2 (Children (h node)))"

text \<open>
  The body of \<open>for node in self.postorder()\<close> and the loop itself. The heap is returned
  in both outcomes.
\<close>

definition distances_node ::
  "(nat \<times> nat) list \<Rightarrow> real \<Rightarrow> heap \<Rightarrow> real list \<Rightarrow> real list list \<Rightarrow> nat
     \<Rightarrow> heap \<times> (error + real list \<times> real list list)" where
  "distances_node result_map default_length h distances result node =
     (if Children (h node) = [] then (h, Inr (distances, result))
      else case add_children h default_length distances [] [] (Children (h node)) of
             Inl e \<Rightarrow> (h, Inl e)
           | Inr (distances1, starts, stops) \<Rightarrow>
               (let h1 = h(node := (h node)\<lparr>start_stop := Some (list_min starts, list_max stops)\<rparr>)
                in if length (Children (h1 node)) > 1 then
                     (case update_result h1 result_map distances1 result node of
                        Inl e \<Rightarrow> (h1, Inl e)
                      | Inr result1 \<Rightarrow> (h1, Inr (distances1, result1)))
                   else (h1, Inr (distances1, result))))"

fun distances_nodes ::
  "(nat \<times> nat) list \<Rightarrow> real \<Rightarrow> heap \<Rightarrow> real list \<Rightarrow> real list list \<Rightarrow> nat list
     \<Rightarrow> heap \<times> (error + real list \<times> real list list)" where
  "distances_nodes result_map default_length h distances result [] = (h, Inr (distances, result))"
| "distances_nodes result_map default_length h distances result (node # rest) =
     (case distances_node result_map default_length h distances result node of
        (h1, Inl e) \<Rightarrow> (h1, Inl e)
      | (h1, Inr (distances1, result1)) \<Rightarrow>
          distances_nodes result_map default_length h1 distances1 result1 rest)"

text \<open>
  \<open>result + result.T\<close>.
\<close>

definition add_transpose :: "real list list \<Rightarrow> real list list" where
  "add_transpose result =
     map (\<lambda>i. map (\<lambda>j. result ! i ! j + result ! j ! i) [0..<length result]) [0..<length result]"

text \<open>
  The method. \<open>self.tips()\<close> leaves out \<open>self\<close> (\<open>include_self\<close> defaults to false),
  \<open>self.postorder()\<close> includes it. With \<open>endpoints\<close> the tip order is the list of the
  nodes found for the given names; the lookups may build the name cache, so they return a
  heap.
\<close>

definition tip_tip_distances ::
  "heap \<Rightarrow> nat \<Rightarrow> key list option \<Rightarrow> real
     \<Rightarrow> (heap \<times> (error + real list list \<times> nat list)) option" where
  "tip_tip_distances h self endpoints default_length =
     (case tips h self False of
        None \<Rightarrow> None
      | Some all_tips \<Rightarrow>
          (case (case endpoints of
                   None \<Rightarrow> Some (h, Inr all_tips)
                 | Some names \<Rightarrow> find_all h self names) of
             None \<Rightarrow> None
           | Some (h1, Inl e) \<Rightarrow> Some (h1, Inl e)
           | Some (h1, Inr tip_order) \<Rightarrow>
               (let h2 = set_tip_slices h1 0 all_tips in
                case result_map_of h2 0 tip_order [] of
                  Inl e \<Rightarrow> Some (h2, Inl e)
                | Inr result_map \<Rightarrow>
                    (let num_all_tips = length all_tips;
                         num_tips = length tip_order;
                         result = replicate num_tips (replicate num_tips 0);
                         distances = replicate num_all_tips 0
                     in case postorder h2 self True of
                          None \<Rightarrow> None
                        | Some (Inl e) \<Rightarrow> Some (h2, Inl e)
                        | Some (Inr ns) \<Rightarrow>
                            (case distances_nodes result_map default_length h2 distances result ns of
                               (h3, Inl e) \<Rightarrow> Some (h3, Inl e)
                             | (h3, Inr (distances1, result1)) \<Rightarrow>
                                 Some (h3, Inr (add_transpose result1, tip_order)))))))"

section \<open>Paths between the nodes of a tree\<close>

text \<open>
  What the distance matrix is compared with. \<open>tips_of\<close> lists the tips below a node,
  left to right (a childless node is its own tip). \<open>path_to t x\<close> is the list of nodes
  from the root of \<open>t\<close> down to \<open>x\<close>; the path that connects two nodes leaves out the
  common prefix of their two root paths, so \<open>path_edges\<close> counts its edges and
  \<open>path_len\<close> adds the lengths of its branches (\<open>branch_len\<close>: the \<open>Length\<close> of the node
  below the branch, or the default length where it is \<open>None\<close>). \<open>down_len\<close> is the
  length of the path from the root of \<open>t\<close> to \<open>x\<close>.
\<close>

definition branch_len :: "heap \<Rightarrow> real \<Rightarrow> nat \<Rightarrow> real" where
  "branch_len h default_length c = (case Length (h c) of Some l \<Rightarrow> l | None \<Rightarrow> default_length)"

fun tips_of :: "tree \<Rightarrow> nat list" where
  "tips_of (Node n ts) = (if ts = [] then [n] else concat (map tips_of ts))"

function path_to :: "tree \<Rightarrow> nat \<Rightarrow> nat list" where
  "path_to (Node n ts) x =
     (if x = n then [n]
      else case List.find (\<lambda>k. x \<in> set (nodes_of k)) ts of
             None \<Rightarrow> []
           | Some k \<Rightarrow> n # path_to k x)"
  by pat_completeness auto
termination
proof (relation "measure (\<lambda>(t, x). size t)")
  show "wf (measure (\<lambda>(t, x). size t))" by simp
next
  fix n ts x k
  assume "List.find (\<lambda>k. x \<in> set (nodes_of k)) ts = Some k"
  then have "k \<in> set ts" by (auto simp: find_Some_iff)
  then have "size k \<le> size_list size ts" by (rule size_list_estimation') simp
  then have "size k < Suc (size_list size ts)" by simp
  then show "((k, x), (Node n ts, x)) \<in> measure (\<lambda>(t, x). size t)" by simp
qed

declare path_to.simps [simp del]

fun common_prefix :: "nat list \<Rightarrow> nat list \<Rightarrow> nat list" where
  "common_prefix (x # xs) (y # ys) = (if x = y then x # common_prefix xs ys else [])"
| "common_prefix xs ys = []"

definition path_edges :: "tree \<Rightarrow> nat \<Rightarrow> nat \<Rightarrow> nat" where
  "path_edges t a b =
     (let c = length (common_prefix (path_to t a) (path_to t b))
      in (length (path_to t a) - c) + (length (path_to t b) - c))"

definition path_len :: "heap \<Rightarrow> real \<Rightarrow> tree \<Rightarrow> nat \<Rightarrow> nat \<Rightarrow> real" where
  "path_len h dl t a b =
     (let c = length (common_prefix (path_to t a) (path_to t b))
      in sum_list (map (branch_len h dl) (drop c (path_to t a)))
         + sum_list (map (branch_len h dl) (drop c (path_to t b))))"

definition down_len :: "heap \<Rightarrow> real \<Rightarrow> tree \<Rightarrow> nat \<Rightarrow> real" where
  "down_len h dl t x = sum_list (map (branch_len h dl) (tl (path_to t x)))"

text \<open>
  The invariant of the postorder loop. \<open>slice\<close> is the index range held by a node and
  \<open>square n\<close> says that a matrix has \<open>n\<close> rows of length \<open>n\<close>. \<open>pos\<close> gives each tip its
  position in the tip order. \<open>ready\<close> describes a forest that the loop has not entered:
  its tips hold their unit slices, which lie side by side, and their distances are zero.
  \<open>solved\<close> relates the state before a forest to the state after it: each root holds the
  slice of its tips, \<open>distances\<close> holds for each tip its distance to the root of its tree,
  the upper triangle of \<open>result\<close> holds the path length of each pair of tips of one tree,
  and nothing else has changed.
\<close>

definition slice :: "heap \<Rightarrow> nat \<Rightarrow> nat set" where
  "slice h c = (case start_stop (h c) of None \<Rightarrow> {} | Some (start, stop) \<Rightarrow> {start..<stop})"

definition square :: "nat \<Rightarrow> real list list \<Rightarrow> bool" where
  "square n result = (length result = n \<and> list_all (\<lambda>row. length row = n) result)"

definition ready ::
  "nat \<Rightarrow> (nat \<times> nat) list \<Rightarrow> (nat \<Rightarrow> nat) \<Rightarrow> heap \<Rightarrow> real list \<Rightarrow> real list list
     \<Rightarrow> tree list \<Rightarrow> bool" where
  "ready n rm pos h ds res ks =
     (length ds = n \<and> square n res \<and> (\<forall>i<n. map_of rm i = Some i)
      \<and> (\<forall>k \<in> set ks. tree_at h k) \<and> distinct (concat (map nodes_of ks))
      \<and> (\<forall>a \<in> set (concat (map tips_of ks)).
            start_stop (h a) = Some (pos a, Suc (pos a)) \<and> pos a < n \<and> ds ! pos a = 0)
      \<and> (\<exists>lo. map pos (concat (map tips_of ks)) =
                  [lo..<lo + length (concat (map tips_of ks))]))"

definition solved ::
  "nat \<Rightarrow> real \<Rightarrow> (nat \<Rightarrow> nat) \<Rightarrow> heap \<Rightarrow> real list \<Rightarrow> real list list
     \<Rightarrow> heap \<Rightarrow> real list \<Rightarrow> real list list \<Rightarrow> tree list \<Rightarrow> bool" where
  "solved n dl pos h ds res h' ds' res' ks =
     (length ds' = n \<and> square n res'
      \<and> (\<forall>x. x \<notin> set (concat (map nodes_of ks)) \<longrightarrow> h' x = h x)
      \<and> (\<forall>x. Children (h' x) = Children (h x) \<and> Length (h' x) = Length (h x)
               \<and> Parent (h' x) = Parent (h x))
      \<and> (\<forall>a \<in> set (concat (map tips_of ks)). start_stop (h' a) = start_stop (h a))
      \<and> (\<forall>k \<in> set ks. start_stop (h' (root k)) =
            Some (Min (pos ` set (tips_of k)), Suc (Max (pos ` set (tips_of k)))))
      \<and> (\<forall>k \<in> set ks. \<forall>a \<in> set (tips_of k). ds' ! pos a = down_len h dl k a)
      \<and> (\<forall>i<n. i \<notin> pos ` set (concat (map tips_of ks)) \<longrightarrow> ds' ! i = ds ! i)
      \<and> (\<forall>k \<in> set ks. \<forall>a \<in> set (tips_of k). \<forall>b \<in> set (tips_of k).
            pos a < pos b \<longrightarrow> res' ! pos a ! pos b = path_len h dl k a b)
      \<and> (\<forall>i<n. \<forall>j<n.
            \<not> (\<exists>k \<in> set ks. i \<in> pos ` set (tips_of k) \<and> j \<in> pos ` set (tips_of k) \<and> i < j)
            \<longrightarrow> res' ! i ! j = res ! i ! j))"

section \<open>A tree with three tips\<close>

text \<open>
  The tree \<open>(A,(B,C))\<close> with every branch of length 1.
\<close>

definition abc_heap :: heap where
  "abc_heap = (\<lambda>a. TreeNode None None None)
     (0 := (TreeNode None (Some 0) None)\<lparr>Children := [2, 3]\<rparr>,
      2 := TreeNode (Some ''A'') (Some 1) (Some 0),
      3 := (TreeNode None (Some 1) (Some 0))\<lparr>Children := [4, 5]\<rparr>,
      4 := TreeNode (Some ''B'') (Some 1) (Some 3),
      5 := TreeNode (Some ''C'') (Some 1) (Some 3))"

definition abc_tree :: tree where
  "abc_tree = Node 0 [Node 2 [], Node 3 [Node 4 [], Node 5 []]]"

section \<open>Results\<close>

text \<open>
  C10. Called with an empty list of tip identifiers, \<open>lowest_common_ancestor\<close> returns
  \<open>None\<close> ("no node") without raising, and the store it leaves is the store it was given:
  no lookup runs, so not even the name cache is built.
\<close>

theorem lowest_common_ancestor_empty:
  "lowest_common_ancestor h self [] = Some (h, Inr None)"
  by (simp add: lowest_common_ancestor_def)

subsection \<open>The name cache after a duplicate name\<close>

lemma cache_nodes_other:
  "x \<noteq> self \<Longrightarrow> fst (cache_nodes h self ns) x = h x"
  by (induction ns arbitrary: h) (auto split: option.splits)







subsection \<open>Cache invalidation by the topology updates\<close>

lemma first_index_bound: "first_index cs node i = Some j \<Longrightarrow> i \<le> j \<and> j < i + length cs"
proof (induction cs arbitrary: i)
  case Nil
  then show ?case by simp
next
  case (Cons c cs)
  show ?case
  proof (cases "c = node")
    case True
    with Cons.prems show ?thesis by simp
  next
    case False
    with Cons.prems have "first_index cs node (i + 1) = Some j" by simp
    from Cons.IH[OF this] show ?thesis by simp
  qed
qed


lemma remove'_result:
  "remove' h self node =
     (case first_index (Children (h self)) node 0 of
        Some i \<Rightarrow> (fst (remove_node h self (int i)), Inr True)
      | None \<Rightarrow> (invalidate_node_cache h self, Inr False))"
proof (cases "first_index (Children (h self)) node 0")
  case None
  then show ?thesis by (simp add: remove'_def)
next
  case (Some i)
  from first_index_bound[OF this] have "i < length (Children (h self))" by simp
  then have "list_pop (Children (invalidate_node_cache h self self)) (int i) =
     Inr (Children (h self) ! i, take i (Children (h self)) @ drop (Suc i) (Children (h self)))"
    by (simp add: list_pop_def invalidate_node_cache_def)
  with Some show ?thesis
    by (simp add: remove'_def remove_node_def Let_def)
qed


lemma adopt_result:
  "adopt h self node =
     (let h1 = (case Parent (h node) of None \<Rightarrow> h | Some p \<Rightarrow> fst (remove' h p node))
      in (invalidate_node_cache (h1(node := (h1 node)\<lparr>Parent := Some self\<rparr>)) self, Inr node))"
  by (simp add: adopt_def remove'_result Let_def split: option.splits)

lemma append'_result:
  "append' h self node =
     (let h1 = fst (adopt h self node)
      in (invalidate_node_cache
            (h1(self := (h1 self)\<lparr>Children := Children (h1 self) @ [node]\<rparr>)) self, Inr ()))"
  by (simp add: append'_def adopt_result Let_def)


lemma adopt_all_result: "snd (adopt_all h self nodes) = Inr nodes"
proof (induction nodes arbitrary: h)
  case Nil
  then show ?case by simp
next
  case (Cons n ns)
  obtain h1 where a: "adopt h self n = (h1, Inr n)"
    by (simp add: adopt_result Let_def)
  obtain h2 where b: "adopt_all h1 self ns = (h2, Inr ns)"
    using Cons.IH[of h1] by (cases "adopt_all h1 self ns") auto
  show ?case by (simp add: a b)
qed

lemma extend'_result:
  "extend' h self nodes =
     (let h1 = fst (adopt_all h self nodes)
      in (invalidate_node_cache
            (h1(self := (h1 self)\<lparr>Children := Children (h1 self) @ nodes\<rparr>)) self, Inr ()))"
  using adopt_all_result[of h self nodes]
  by (cases "adopt_all h self nodes") (simp add: extend'_def Let_def)

















subsection \<open>The diameter memo and the topology updates\<close>

lemma remove_node_memo: "MaxDistTips (fst (remove_node h self idx) y) = MaxDistTips (h y)"
  by (auto simp: remove_node_def invalidate_node_cache_def Let_def split: sum.splits)

lemma remove'_memo: "MaxDistTips (fst (remove' h self node) y) = MaxDistTips (h y)"
  by (simp add: remove'_result remove_node_memo invalidate_node_cache_def split: option.splits)

lemma adopt_memo: "MaxDistTips (fst (adopt h self node) y) = MaxDistTips (h y)"
  by (simp add: adopt_result Let_def remove'_memo invalidate_node_cache_def split: option.splits)

lemma append'_memo: "MaxDistTips (fst (append' h self node) y) = MaxDistTips (h y)"
  by (simp add: append'_result Let_def adopt_memo invalidate_node_cache_def)

lemma adopt_all_memo: "MaxDistTips (fst (adopt_all h self nodes) y) = MaxDistTips (h y)"
proof (induction nodes arbitrary: h)
  case Nil
  then show ?case by simp
next
  case (Cons n ns)
  obtain h1 where a: "adopt h self n = (h1, Inr n)"
    by (simp add: adopt_result Let_def)
  obtain h2 where b: "adopt_all h1 self ns = (h2, Inr ns)"
    using adopt_all_result[of h1 self ns] by (cases "adopt_all h1 self ns") auto
  from Cons.IH[of h1] adopt_memo[of h self n y] show ?case by (simp add: a b)
qed

lemma extend'_memo: "MaxDistTips (fst (extend' h self nodes) y) = MaxDistTips (h y)"
  by (simp add: extend'_result Let_def adopt_all_memo invalidate_node_cache_def)

lemma pop_memo: "MaxDistTips (fst (pop h self idx) y) = MaxDistTips (h y)"
  by (simp add: pop_def remove_node_memo invalidate_node_cache_def)

lemma prune_nodes_memo: "MaxDistTips (fst (prune_nodes h nodes) y) = MaxDistTips (h y)"
proof (induction nodes arbitrary: h)
  case Nil
  then show ?case by simp
next
  case (Cons n ns)
  show ?case
  proof (cases "Parent (h n)")
    case None
    then show ?thesis by simp
  next
    case (Some p)
    show ?thesis
    proof (cases "Children (h n)")
      case Nil
      with Some show ?thesis by simp
    next
      case (Cons c cs)
      obtain h1 where a: "append' h p c = (h1, Inr ())"
        by (simp add: append'_result Let_def)
      have m1: "MaxDistTips (h1 y) = MaxDistTips (h y)"
        using append'_memo[of h p c y] a by simp
      show ?thesis
      proof (cases "Parent (h1 n)")
        case None
        with Some Cons a m1 show ?thesis by simp
      next
        case (Some p1)
        obtain h2 b where r: "remove' h1 p1 n = (h2, Inr b)"
          by (cases "first_index (Children (h1 p1)) n 0") (auto simp: remove'_result)
        have m2: "MaxDistTips (h2 y) = MaxDistTips (h1 y)"
          using remove'_memo[of h1 p1 n y] r by simp
        from Cons.IH[of h2] m1 m2 \<open>Parent (h n) = Some p\<close> Cons a Some r
        show ?thesis by simp
      qed
    qed
  qed
qed

lemma prune_memo:
  assumes "prune h self = Some (h', r)"
  shows "MaxDistTips (h' y) = MaxDistTips (h y)"
proof -
  from assms obtain ns where ns: "preorder h self False = Some ns"
    by (auto simp: prune_def split: option.splits)
  let ?rm = "filter (\<lambda>node. length (Children (h node)) = 1) ns"
  obtain h1 r1 where p: "prune_nodes h ?rm = (h1, r1)" by (cases "prune_nodes h ?rm")
  have m1: "MaxDistTips (h1 y) = MaxDistTips (h y)"
    using prune_nodes_memo[of h ?rm y] p by simp
  show ?thesis
  proof (cases r1)
    case (Inl e)
    with assms ns p have "h' = h1" by (simp add: prune_def)
    with m1 show ?thesis by simp
  next
    case (Inr u)
    with assms ns p have "h' = invalidate_node_cache h1 self" by (simp add: prune_def)
    with m1 show ?thesis by (auto simp: invalidate_node_cache_def)
  qed
qed

lemma c3_heap_simps:
  "c3_heap 0 = (TreeNode (Some ''r'') None None)\<lparr>Children := [2]\<rparr>"
  "c3_heap 2 = TreeNode (Some ''A'') (Some 1) (Some 0)"
  "c3_heap 3 = TreeNode (Some ''B'') (Some 5) None"
  by (simp_all add: c3_heap_def)

lemma c3_post: "postorder c3_heap 0 True = Some (Inr [2, 0])"
  by (simp add: postorder_def postorder_loop.simps c3_heap_simps TreeNode_def)

lemma c3_set: "set_max_distance stable_argsort c3_memo 0 = Some (c3_memo1, Inr ())"
  unfolding set_max_distance_def c3_memo_def memo.simps c3_post
  by (auto simp add: set_max_distance_node_def set_MaxDistTips_def add_to_cell_def length_or_zero_def
      c3_memo1_def c3_heap_simps TreeNode_def fun_eq_iff)

lemma c3_nontips1: "non_tips (heap_of c3_memo1) 0 True = Some [0]"
  by (simp add: non_tips_def preorder_def preorder_loop.simps c3_memo1_def c3_heap_simps TreeNode_def)

lemma c3_first: "get_max_distance stable_argsort c3_memo 0 = Some (c3_memo1, Inr (2, Some 2, Some 2))"
proof -
  have "MaxDistTips (heap_of c3_memo 0) = None"
    by (simp add: c3_memo_def c3_heap_simps TreeNode_def)
  then show ?thesis
    unfolding get_max_distance_def
    by (simp add: c3_set c3_nontips1) (simp add: c3_memo1_def)
qed

lemma c3_heap2:
  "heap_of c3_memo2 0 = (heap_of c3_memo1 0)\<lparr>Children := [2, 3]\<rparr>"
  "heap_of c3_memo2 2 = heap_of c3_memo1 2"
  "heap_of c3_memo2 3 = (c3_heap 3)\<lparr>Parent := Some 0\<rparr>"
  by (simp_all add: c3_memo2_def append'_def adopt_def invalidate_node_cache_def c3_memo1_def
      c3_heap_simps TreeNode_def)

lemma c3_nontips2: "non_tips (heap_of c3_memo2) 0 True = Some [0]"
  by (simp add: non_tips_def preorder_def preorder_loop.simps c3_heap2 c3_memo1_def c3_heap_simps TreeNode_def)

lemma c3_second: "get_max_distance stable_argsort c3_memo2 0 = Some (c3_memo2, Inr (2, Some 2, Some 2))"
proof -
  have "MaxDistTips (heap_of c3_memo2 0) \<noteq> None"
    by (simp add: c3_heap2 c3_memo1_def)
  then show ?thesis
    unfolding get_max_distance_def
    by (simp add: c3_nontips2 c3_heap2) (simp add: c3_memo2_def c3_memo1_def)
qed

lemma c3_dist: "accumulate_to_ancestor (heap_of c3_memo2) 2 0 = Some (Inr 1)"
  "accumulate_to_ancestor (heap_of c3_memo2) 3 0 = Some (Inr 5)"
  by (simp_all add: accumulate_to_ancestor_def accumulate_loop.simps c3_heap2 c3_memo1_def c3_heap_simps TreeNode_def)

lemma c3_fresh_heap:
  "heap_of c3_fresh 0 = (c3_heap 0)\<lparr>Children := [2, 3]\<rparr>"
  "heap_of c3_fresh 2 = c3_heap 2"
  "heap_of c3_fresh 3 = (c3_heap 3)\<lparr>Parent := Some 0\<rparr>"
  by (simp_all add: c3_fresh_def append'_def adopt_def invalidate_node_cache_def
      c3_heap_simps TreeNode_def)

lemma c3_fresh_post: "postorder (heap_of c3_fresh) 0 True = Some (Inr [2, 3, 0])"
  by (simp add: postorder_def postorder_loop.simps c3_fresh_heap c3_heap_simps TreeNode_def)

lemma stable_argsort_00: "stable_argsort [0, 0] = [0, 1]"
  by (simp add: stable_argsort_def upt_rec)

lemma c3_recomputed:
  "map_option snd (get_max_distance stable_argsort c3_fresh 0) = Some (Inr (6, Some 2, Some 3))"
proof -
  let ?m1 = "fst (set_max_distance_node stable_argsort c3_fresh 2)"
  let ?m2 = "fst (set_max_distance_node stable_argsort ?m1 3)"
  let ?m3 = "fst (set_max_distance_node stable_argsort ?m2 0)"
  have a: "MaxDistTips (heap_of c3_fresh 0) = None"
    by (simp add: c3_fresh_heap c3_heap_simps TreeNode_def)
  have c0: "cells c3_fresh = (\<lambda>a. (0, 0))" "fresh c3_fresh = 0"
    by (simp_all add: c3_fresh_def)
  have r1: "snd (set_max_distance_node stable_argsort c3_fresh 2) = Inr ()"
     and m1h: "heap_of ?m1 0 = heap_of c3_fresh 0" "heap_of ?m1 3 = heap_of c3_fresh 3"
       "heap_of ?m1 2 = (c3_heap 2)\<lparr>MaxDistTips := Some (0, 1)\<rparr>"
     and m1c: "cells ?m1 0 = (0, 2)" "cells ?m1 1 = (0, 2)" and m1f: "fresh ?m1 = 2"
    by (simp_all add: set_max_distance_node_def set_MaxDistTips_def c3_fresh_heap c3_heap_simps
        TreeNode_def Let_def c0)
  have r2: "snd (set_max_distance_node stable_argsort ?m1 3) = Inr ()"
     and m2h: "heap_of ?m2 0 = heap_of c3_fresh 0" "heap_of ?m2 2 = heap_of ?m1 2"
       "heap_of ?m2 3 = (heap_of c3_fresh 3)\<lparr>MaxDistTips := Some (2, 3)\<rparr>"
     and m2c: "cells ?m2 0 = (0, 2)" "cells ?m2 1 = (0, 2)" "cells ?m2 2 = (0, 3)"
       "cells ?m2 3 = (0, 3)"
    by (simp_all add: set_max_distance_node_def set_MaxDistTips_def c0 c3_fresh_heap
        c3_heap_simps TreeNode_def Let_def)
  have r3: "snd (set_max_distance_node stable_argsort ?m2 0) = Inr ()"
     and m3h: "heap_of ?m3 0 = (heap_of c3_fresh 0)\<lparr>MaxDistTips := Some (0, 2)\<rparr>"
       "heap_of ?m3 2 = heap_of ?m2 2" "heap_of ?m3 3 = heap_of ?m2 3"
     and m3c: "cells ?m3 0 = (1, 2)" "cells ?m3 2 = (5, 3)"
    by (simp_all add: set_max_distance_node_def set_MaxDistTips_def c0
        c3_fresh_heap c3_heap_simps TreeNode_def Let_def max_cell_def list_gt_def
        stable_argsort_00 add_to_cell_def length_or_zero_def)
  have s: "set_max_distance stable_argsort c3_fresh 0 = Some (?m3, Inr ())"
    using r1 r2 r3
    by (simp add: set_max_distance_def c3_fresh_post case_prod_beta split: sum.splits)
  have nt: "non_tips (heap_of ?m3) 0 True = Some [0]"
    by (simp add: non_tips_def preorder_def preorder_loop.simps m3h m2h m1h c3_fresh_heap
        c3_heap_simps TreeNode_def)
  show ?thesis
    unfolding get_max_distance_def
    by (simp add: a s nt m3h m3c)
qed

text \<open>
  C3, as stated, fails: \<open>get_max_distance\<close> on the root with the single tip \<open>A\<close> stores
  \<open>MaxDistTips\<close> and returns 2; appending the tip \<open>B\<close> (length 5) leaves \<open>MaxDistTips\<close> of
  the root in place, and the next \<open>get_max_distance\<close> returns the same 2 with the tips
  \<open>A, A\<close>, while \<open>A\<close> and \<open>B\<close> are 1 + 5 apart and the computation run on the mutated tree
  without a memo returns 6.
\<close>

theorem get_max_distance_stale:
  "get_max_distance stable_argsort c3_memo 0 = Some (c3_memo1, Inr (2, Some 2, Some 2))
   \<and> MaxDistTips (heap_of c3_memo2 0) = Some (0, 1)
   \<and> Children (heap_of c3_memo2 0) = [2, 3]
   \<and> get_max_distance stable_argsort c3_memo2 0 = Some (c3_memo2, Inr (2, Some 2, Some 2))
   \<and> accumulate_to_ancestor (heap_of c3_memo2) 2 0 = Some (Inr 1)
   \<and> accumulate_to_ancestor (heap_of c3_memo2) 3 0 = Some (Inr 5)
   \<and> map_option snd (get_max_distance stable_argsort c3_fresh 0) = Some (Inr (6, Some 2, Some 3))"
  by (simp add: c3_first c3_second c3_dist c3_recomputed)
     (simp add: c3_heap2 c3_memo1_def)

text \<open>
  C3, amended. No structural edit (\<open>append\<close>, \<open>extend\<close>, \<open>pop\<close>, \<open>remove\<close>, \<open>prune\<close>)
  touches the diameter memo \<open>MaxDistTips\<close> of any node, and \<open>get_max_distance\<close> computes
  the memo only when the node it is called on has none: called after an edit on a node
  that had the memo before, it does not recompute and returns what the stored pairs give
  over the non-tips of the mutated tree.
\<close>

theorem edits_keep_MaxDistTips:
  assumes "h' = fst (append' h x n) \<or> h' = fst (extend' h x nodes) \<or> h' = fst (pop h x idx)
           \<or> h' = fst (remove' h x n) \<or> prune h x = Some (h', r)"
  shows "(\<forall>y. MaxDistTips (h' y) = MaxDistTips (h y))
         \<and> (MaxDistTips (h x) \<noteq> None \<longrightarrow>
              get_max_distance argsort (m\<lparr>heap_of := h'\<rparr>) x =
                (case non_tips h' x True of
                   None \<Rightarrow> None
                 | Some ns \<Rightarrow>
                     Some (m\<lparr>heap_of := h'\<rparr>, longest_of (m\<lparr>heap_of := h'\<rparr>) (0, None, None) ns)))"
proof -
  from assms have frame: "\<forall>y. MaxDistTips (h' y) = MaxDistTips (h y)"
    using append'_memo extend'_memo pop_memo remove'_memo prune_memo by metis
  then have "MaxDistTips (h x) \<noteq> None \<longrightarrow>
              get_max_distance argsort (m\<lparr>heap_of := h'\<rparr>) x =
                (case non_tips h' x True of
                   None \<Rightarrow> None
                 | Some ns \<Rightarrow>
                     Some (m\<lparr>heap_of := h'\<rparr>, longest_of (m\<lparr>heap_of := h'\<rparr>) (0, None, None) ns))"
    by (auto simp: get_max_distance_def)
  with frame show ?thesis by blast
qed

theorem edits_keep_MaxDistTips_witness:
  "MaxDistTips (heap_of c3_memo1 0) \<noteq> None
   \<and> (\<forall>y. MaxDistTips (fst (append' (heap_of c3_memo1) 0 3) y) = MaxDistTips (heap_of c3_memo1 y))
   \<and> get_max_distance stable_argsort c3_memo2 0 = Some (c3_memo2, Inr (2, Some 2, Some 2))"
proof -
  have a: "MaxDistTips (heap_of c3_memo1 0) \<noteq> None"
    by (simp add: c3_memo1_def)
  have e: "fst (append' (heap_of c3_memo1) 0 3) = fst (append' (heap_of c3_memo1) 0 3)
           \<or> fst (append' (heap_of c3_memo1) 0 3) = fst (extend' (heap_of c3_memo1) 0 [])
           \<or> fst (append' (heap_of c3_memo1) 0 3) = fst (pop (heap_of c3_memo1) 0 0)
           \<or> fst (append' (heap_of c3_memo1) 0 3) = fst (remove' (heap_of c3_memo1) 0 3)
           \<or> prune (heap_of c3_memo1) 0 = Some (fst (append' (heap_of c3_memo1) 0 3), Inr ())"
    by simp
  from edits_keep_MaxDistTips[OF e, of stable_argsort c3_memo1] a c3_second
  show ?thesis by simp
qed

subsection \<open>Accumulating branch lengths up to an ancestor\<close>

lemma traversed_Cons:
  "c \<noteq> a \<Longrightarrow> traversed a (c # p # cs) = c # traversed a (p # cs)"
  by (simp add: traversed_def)

lemma traversed_hit: "traversed a (a # cs) = []"
  by (simp add: traversed_def)

lemma traversed_single: "traversed a [r] = []"
  by (simp add: traversed_def)

lemma accumulate_loop_chain:
  "parent_chain h chain \<Longrightarrow>
   accumulate_loop h a acc (hd chain) =
     Some (case accumulate_spec h a chain of Inl e \<Rightarrow> Inl e | Inr s \<Rightarrow> Inr (acc + s))"
proof (induction h chain arbitrary: acc rule: parent_chain.induct)
  case (1 h)
  then show ?case by simp
next
  case (2 h r)
  then show ?case
    by (subst accumulate_loop.simps) (simp add: accumulate_spec_def traversed_def)
next
  case (3 h c p cs)
  show ?case
  proof (cases "c = a")
    case True
    then show ?thesis
      by (subst accumulate_loop.simps) (simp add: accumulate_spec_def traversed_hit)
  next
    case False
    from 3 have par: "Parent (h c) = Some p" and ch: "parent_chain h (p # cs)" by auto
    show ?thesis
    proof (cases "Length (h c)")
      case None
      with False par show ?thesis
        by (subst accumulate_loop.simps) (simp add: accumulate_spec_def traversed_Cons)
    next
      case (Some l)
      have ih: "accumulate_loop h a (acc + l) p =
        Some (case accumulate_spec h a (p # cs) of Inl e \<Rightarrow> Inl e | Inr s \<Rightarrow> Inr (acc + l + s))"
        using "3.IH"[OF ch, of "acc + l"] by simp
      have step: "accumulate_loop h a acc c = accumulate_loop h a (acc + l) p"
        using False par Some by (subst accumulate_loop.simps) simp
      show ?thesis
        unfolding list.sel step ih using False Some
        by (simp add: accumulate_spec_def traversed_Cons add.assoc)
    qed
  qed
qed

text \<open>
  C7. Let the parent links from \<open>n\<close> lead to a root, through the nodes \<open>n # chain\<close>. Then
  \<open>n._accumulate_to_ancestor(a)\<close> returns, and its result is the no-length error when a
  branch the walk crosses before reaching \<open>a\<close> (or the root) has no length, otherwise the
  sum of the branch lengths from \<open>n\<close> up to, not including, \<open>a\<close> when \<open>a\<close> is on the chain,
  and the no-parent error when the root is reached without meeting \<open>a\<close>.
\<close>

theorem accumulate_to_ancestor_chain:
  "parent_chain h (n # chain) \<Longrightarrow>
   accumulate_to_ancestor h n a = Some (accumulate_spec h a (n # chain))"
  using accumulate_loop_chain[of h "n # chain" a 0]
  by (simp add: accumulate_to_ancestor_def split: sum.splits)

lemma chain_heap_simps:
  "chain_heap 0 = (TreeNode None None None)\<lparr>Children := [2, 4]\<rparr>"
  "chain_heap 2 = (TreeNode None (Some 2) (Some 0))\<lparr>Children := [3]\<rparr>"
  "chain_heap 3 = TreeNode None (Some 3) (Some 2)"
  "chain_heap 4 = TreeNode None None (Some 0)"
  by (simp_all add: chain_heap_def)

theorem accumulate_to_ancestor_chain_witness:
  "parent_chain chain_heap [3, 2, 0] \<and> parent_chain chain_heap [4, 0]
   \<and> accumulate_to_ancestor chain_heap 3 0 = Some (Inr 5)
   \<and> accumulate_to_ancestor chain_heap 4 0 = Some (Inl NoLengthError)
   \<and> accumulate_to_ancestor chain_heap 3 4 = Some (Inl NoParentError)"
proof -
  have a: "parent_chain chain_heap [3, 2, 0]" and b: "parent_chain chain_heap [4, 0]"
    by (simp_all add: chain_heap_simps TreeNode_def)
  show ?thesis
    using a b accumulate_to_ancestor_chain[OF a, of 0] accumulate_to_ancestor_chain[OF b, of 0]
      accumulate_to_ancestor_chain[OF a, of 4]
    by (simp add: accumulate_spec_def traversed_def chain_heap_simps TreeNode_def)
qed

subsection \<open>Names in the Newick output\<close>

text \<open>
  C8, as stated, fails: the lone node named \<open>'a'\<close> (the quotes are part of the name) has a
  name that contains a single quote, and \<open>to_newick\<close> with \<open>escape_name\<close> writes it as
  it is, neither wrapped nor with its quotes doubled.
\<close>

theorem quoted_name_unchanged:
  "to_newick quoted_heap str_blank 0 False True True = Some (Inr [quote, CHR ''a'', quote, CHR '';''])
   \<and> quote \<in> set newick_specials
   \<and> [quote, CHR ''a'', quote, CHR '';''] \<noteq> [quote] @ double_quotes [quote, CHR ''a'', quote] @ [quote] @ '';''"
  by (simp add: to_newick_def to_newick_loop.simps quoted_heap_def TreeNode_def newick_name_def
      newick_specials_def quote_def double_quotes_def)

subsection \<open>Marks left by the lowest common ancestor\<close>

lemma lca_heap_simps:
  "lca_heap 0 = (TreeNode (Some ''p'') None None)\<lparr>Children := [2]\<rparr>"
  "lca_heap 2 = TreeNode (Some ''t'') None (Some 0)"
  by (simp_all add: lca_heap_def)

lemma lca_pre: "preorder lca_heap 2 True = Some [2]"
  by (simp add: preorder_def preorder_loop.simps lca_heap_simps TreeNode_def)

lemma lca_find: "find_node lca_heap 2 (ByName ''t'') = Some (lca_cached, Inr 2)"
  by (simp add: find_node_def create_node_cache_def lca_pre lca_cached_def lca_heap_simps TreeNode_def)

lemma lca_find2: "find_node lca_cached 2 (ByName ''t'') = Some (lca_cached, Inr 2)"
  by (simp add: find_node_def create_node_cache_def lca_cached_def lca_heap_simps TreeNode_def)

lemma lca_find_all: "find_all lca_heap 2 [ByName ''t'', ByName ''t''] = Some (lca_cached, Inr [2, 2])"
  by (simp add: lca_find lca_find2)

lemma lca_mark: "mark_tips lca_cached [] [2, 2] = Some (lca_after, Inr [0])"
  by (simp add: mark_up.simps truthy_def lca_cached_def lca_after_def lca_heap_simps TreeNode_def)

lemma lca_descend: "descend lca_after 2 = Some (Inl AttributeError)"
  by (simp add: descend.simps lca_after_def lca_cached_def lca_heap_simps TreeNode_def)

text \<open>
  C9. The tip \<open>t\<close> has the parent \<open>p\<close>. \<open>t.lowest_common_ancestor(['t', 't'])\<close> marks \<open>p\<close>
  on the way up, then reads \<open>black\<close> of \<open>t\<close> itself, which has none: the call ends with an
  \<open>AttributeError\<close> before the clean-up loop, and \<open>p\<close> keeps its \<open>black\<close> attribute.
\<close>

theorem lowest_common_ancestor_leaves_marks:
  "lowest_common_ancestor lca_heap 2 [ByName ''t'', ByName ''t''] =
     Some (lca_after, Inl AttributeError)
   \<and> black (lca_heap 0) = None \<and> black (lca_after 0) = Some [2, 2]"
proof -
  have "lowest_common_ancestor lca_heap 2 [ByName ''t'', ByName ''t''] =
    Some (lca_after, Inl AttributeError)"
    unfolding lowest_common_ancestor_def lca_find_all
    by (simp add: lca_mark lca_descend del: mark_tips.simps)
  moreover have "black (lca_after 0) = Some [2, 2]" "black (lca_heap 0) = None"
    by (simp_all add: lca_after_def lca_cached_def lca_heap_simps TreeNode_def)
  ultimately show ?thesis by simp
qed

subsection \<open>The iterative postorder and the recursive one\<close>

lemma root_in_nodes: "root t \<in> set (nodes_of t)"
  by (cases t) simp

lemma tree_at_Children: "tree_at h t \<Longrightarrow> Children (h (root t)) = map root (kids t)"
  by (cases t) simp

lemma tree_at_kid: "tree_at h t \<Longrightarrow> k \<in> set (kids t) \<Longrightarrow> tree_at h k \<and> Parent (h (root k)) = Some (root t)"
  by (cases t) simp

lemma nodes_kid: "k \<in> set (kids t) \<Longrightarrow> set (nodes_of k) \<subseteq> set (nodes_of t)"
  by (cases t) auto

text \<open>One child: a tip is yielded at once, an inner child is entered with a new index.\<close>

lemma postorder_step_tip:
  assumes "i < length (Children (h c))" and "Children (h (Children (h c) ! i)) = []"
  shows "postorder_loop h self incl (stk @ [i]) c out =
         postorder_loop h self incl (stk @ [Suc i]) c (out @ [Children (h c) ! i])"
  using assms by (subst postorder_loop.simps) (simp add: Let_def)

lemma postorder_step_down:
  assumes "i < length (Children (h c))" and "Children (h (Children (h c) ! i)) \<noteq> []"
  shows "postorder_loop h self incl (stk @ [i]) c out =
         postorder_loop h self incl (stk @ [i, 0]) (Children (h c) ! i) out"
  using assms by (subst postorder_loop.simps) (simp add: Let_def)

lemma postorder_step_up:
  assumes "length (Children (h c)) \<le> i" and "c \<noteq> self" and "Parent (h c) = Some p"
  shows "postorder_loop h self incl (stk @ [j, i]) c out =
         postorder_loop h self incl (stk @ [Suc j]) p (out @ [c])"
  using assms by (subst postorder_loop.simps) (simp add: Let_def butlast_append)

lemma postorder_step_done:
  assumes "length (Children (h self)) \<le> i"
  shows "postorder_loop h self incl (stk @ [i]) self out =
         Some (Inr (if incl then out @ [self] else out))"
  using assms by (subst postorder_loop.simps) (simp add: Let_def)

lemma postorder_kids:
  assumes ch: "Children (h c) = map root ks"
    and sub: "\<And>k stk j out. k \<in> set ks \<Longrightarrow> kids k \<noteq> [] \<Longrightarrow>
              postorder_loop h self incl (stk @ [j, 0]) (root k) out =
              postorder_loop h self incl (stk @ [Suc j]) c (out @ postorder_rec k)"
    and kid: "\<And>k. k \<in> set ks \<Longrightarrow> Children (h (root k)) = map root (kids k)"
  shows "i \<le> length ks \<Longrightarrow>
         postorder_loop h self incl (stk @ [i]) c out =
         postorder_loop h self incl (stk @ [length ks]) c
           (out @ concat (map postorder_rec (drop i ks)))"
proof (induction "length ks - i" arbitrary: i out)
  case 0
  then show ?case by simp
next
  case (Suc d)
  then have i: "i < length ks" by simp
  let ?k = "ks ! i"
  have kin: "?k \<in> set ks" using i by simp
  have ci: "Children (h c) ! i = root ?k" using ch i by simp
  have il: "i < length (Children (h c))" using ch i by simp
  have dr: "drop i ks = ?k # drop (Suc i) ks" using i by (simp add: Cons_nth_drop_Suc)
  have ih: "postorder_loop h self incl (stk @ [Suc i]) c out' =
         postorder_loop h self incl (stk @ [length ks]) c
           (out' @ concat (map postorder_rec (drop (Suc i) ks)))" for out'
    using Suc.hyps(1)[of "Suc i" out'] Suc.hyps(2) i by simp
  show ?case
  proof (cases "kids ?k = []")
    case True
    then have tip: "Children (h (Children (h c) ! i)) = []" using kid[OF kin] ci by simp
    have pk: "postorder_rec ?k = [root ?k]" using True by (cases ?k) simp
    show ?thesis
      unfolding postorder_step_tip[OF il tip] ih dr using pk ci by simp
  next
    case False
    then have inner: "Children (h (Children (h c) ! i)) \<noteq> []" using kid[OF kin] ci by simp
    show ?thesis
      unfolding postorder_step_down[OF il inner] ci sub[OF kin False] ih dr by simp
  qed
qed

lemma postorder_subtree:
  "tree_at h t \<Longrightarrow> self \<notin> set (nodes_of t) \<Longrightarrow> kids t \<noteq> [] \<Longrightarrow> Parent (h (root t)) = Some p \<Longrightarrow>
   postorder_loop h self incl (stk @ [j, 0]) (root t) out =
   postorder_loop h self incl (stk @ [Suc j]) p (out @ postorder_rec t)"
proof (induction t arbitrary: stk j out p)
  case (Node c ks)
  have ch: "Children (h c) = map root ks" using Node.prems(1) by simp
  have sub: "postorder_loop h self incl (stk @ [j, 0]) (root k) out =
             postorder_loop h self incl (stk @ [Suc j]) c (out @ postorder_rec k)"
    if "k \<in> set ks" "kids k \<noteq> []" for k stk j out
  proof -
    have "tree_at h k" "Parent (h (root k)) = Some c" using Node.prems(1) that(1) by auto
    moreover have "self \<notin> set (nodes_of k)" using Node.prems(2) that(1) by auto
    ultimately show ?thesis using Node.IH[OF that(1) _ _ that(2)] by simp
  qed
  have kid: "Children (h (root k)) = map root (kids k)" if "k \<in> set ks" for k
    using Node.prems(1) that tree_at_Children by auto
  have all: "postorder_loop h self incl ((stk @ [j]) @ [0]) c out =
         postorder_loop h self incl ((stk @ [j]) @ [length ks]) c
           (out @ concat (map postorder_rec (drop 0 ks)))"
    by (rule postorder_kids[OF ch sub kid]) simp_all
  have cs: "c \<noteq> self" using Node.prems(2) by simp
  have par: "Parent (h c) = Some p" using Node.prems(4) by simp
  have len: "length (Children (h c)) \<le> length ks" using ch by simp
  show ?case
    using all postorder_step_up[where h=h and c=c and i="length ks" and self=self and p=p and incl=incl and stk=stk and j=j, OF len cs par] by simp
qed

text \<open>
  C5. For every tree held in the store, the index-stack \<open>postorder\<close> generator returns,
  and yields exactly the sequence of the naive recursive postorder (for each node the
  postorders of its children in child order, then the node), with the starting node last
  when \<open>include_self\<close> is true and left out when it is false.
\<close>

theorem postorder_refines_recursive:
  assumes "is_tree h t"
  shows "postorder h (root t) include_self =
           Some (Inr (if include_self then postorder_rec t else butlast (postorder_rec t)))"
proof (cases t)
  case (Node c ks)
  from assms Node have ta: "tree_at h (Node c ks)" and d: "distinct (nodes_of (Node c ks))"
    by (simp_all add: is_tree_def)
  have ch: "Children (h c) = map root ks" using ta by simp
  have sub: "postorder_loop h c include_self (stk @ [j, 0]) (root k) out =
             postorder_loop h c include_self (stk @ [Suc j]) c (out @ postorder_rec k)"
    if "k \<in> set ks" "kids k \<noteq> []" for k stk j out
  proof -
    have "tree_at h k" "Parent (h (root k)) = Some c" using ta that(1) by auto
    moreover have "c \<notin> set (nodes_of k)" using d that(1) by auto
    ultimately show ?thesis using postorder_subtree that(2) by simp
  qed
  have kid: "Children (h (root k)) = map root (kids k)" if "k \<in> set ks" for k
    using ta that tree_at_Children by auto
  have all: "postorder_loop h c include_self ([] @ [0]) c [] =
         postorder_loop h c include_self ([] @ [length ks]) c
           ([] @ concat (map postorder_rec (drop 0 ks)))"
    by (rule postorder_kids[OF ch sub kid]) simp_all
  have len: "length (Children (h c)) \<le> length ks" using ch by simp
  show ?thesis
    using all postorder_step_done[where h=h and self=c and i="length ks" and incl=include_self and stk="[]", OF len]
    by (simp add: postorder_def Node)
qed

lemma chain_is_tree: "is_tree chain_heap chain_tree"
  by (simp add: is_tree_def chain_tree_def chain_heap_simps TreeNode_def)

theorem postorder_refines_recursive_witness:
  "is_tree chain_heap chain_tree
   \<and> postorder chain_heap 0 True = Some (Inr [3, 2, 4, 0])
   \<and> postorder chain_heap 0 False = Some (Inr [3, 2, 4])"
  using chain_is_tree postorder_refines_recursive[OF chain_is_tree, of True]
    postorder_refines_recursive[OF chain_is_tree, of False]
  by (simp add: chain_tree_def)

subsection \<open>What the traversals yield\<close>

lemma yielded_append: "yielded i s (xs @ ys) = yielded i s xs @ yielded i s ys"
  by (simp add: yielded_def)

lemma preorder_pop:
  "preorder_loop h self incl (S @ [n]) out =
   preorder_loop h self incl (S @ rev (Children (h n))) (out @ yielded incl self [n])"
  by (subst preorder_loop.simps) (simp add: Let_def yielded_def)

lemma preorder_forest:
  assumes "\<And>t S out. t \<in> set ts \<Longrightarrow>
     preorder_loop h self incl (S @ [root t]) out =
     preorder_loop h self incl S (out @ yielded incl self (nodes_of t))"
  shows "preorder_loop h self incl (S @ rev (map root ts)) out =
         preorder_loop h self incl S (out @ yielded incl self (concat (map nodes_of ts)))"
  using assms
proof (induction ts arbitrary: out)
  case Nil
  then show ?case by (simp add: yielded_def)
next
  case (Cons t ts)
  have "preorder_loop h self incl (S @ rev (map root (t # ts))) out =
        preorder_loop h self incl ((S @ rev (map root ts)) @ [root t]) out" by simp
  also have "\<dots> = preorder_loop h self incl (S @ rev (map root ts))
                     (out @ yielded incl self (nodes_of t))"
    by (rule Cons.prems) simp
  also have "\<dots> = preorder_loop h self incl S
                     ((out @ yielded incl self (nodes_of t)) @ yielded incl self (concat (map nodes_of ts)))"
    by (rule Cons.IH) (simp add: Cons.prems)
  finally show ?case by (simp add: yielded_append)
qed

lemma preorder_subtree:
  "tree_at h t \<Longrightarrow>
   preorder_loop h self incl (S @ [root t]) out =
   preorder_loop h self incl S (out @ yielded incl self (nodes_of t))"
proof (induction t arbitrary: S out)
  case (Node n ks)
  have ch: "Children (h n) = map root ks" using Node.prems by simp
  have sub: "preorder_loop h self incl (S @ [root k]) out =
     preorder_loop h self incl S (out @ yielded incl self (nodes_of k))"
    if "k \<in> set ks" for k S out
    using Node.IH[OF that] Node.prems that by simp
  have "preorder_loop h self incl (S @ [n]) out =
        preorder_loop h self incl (S @ rev (map root ks)) (out @ yielded incl self [n])"
    unfolding preorder_pop ch by simp
  also have "\<dots> = preorder_loop h self incl S
       ((out @ yielded incl self [n]) @ yielded incl self (concat (map nodes_of ks)))"
    by (rule preorder_forest) (rule sub)
  finally show ?case by (simp add: yielded_def)
qed

lemma preorder_tree:
  "tree_at h t \<Longrightarrow> preorder h (root t) incl = Some (yielded incl (root t) (nodes_of t))"
  using preorder_subtree[of h t "root t" incl "[]" "[]"]
  by (simp add: preorder_def preorder_loop.simps)

lemma levelorder_forest:
  "\<forall>t \<in> set ts. tree_at h t \<Longrightarrow>
   levelorder_loop h self incl (map root ts) out = Some (out @ yielded incl self (bfs ts))"
proof (induction ts arbitrary: out rule: bfs.induct)
  case 1
  then show ?case by (subst levelorder_loop.simps) (simp add: yielded_def)
next
  case (2 n ks ts)
  have ch: "Children (h n) = map root ks" using "2.prems" by simp
  have all: "\<forall>t \<in> set (ts @ ks). tree_at h t" using "2.prems" by auto
  have step: "levelorder_loop h self incl (map root (Node n ks # ts)) out =
        levelorder_loop h self incl (map root (ts @ ks)) (out @ yielded incl self [n])"
    using ch by (subst levelorder_loop.simps) (auto simp: Let_def yielded_def)
  show ?case
    unfolding step "2.IH"[OF all] by (simp add: yielded_def)
qed

lemma levelorder_tree:
  "tree_at h t \<Longrightarrow> levelorder h (root t) incl = Some (yielded incl (root t) (bfs [t]))"
  using levelorder_forest[of "[t]" h "root t" incl "[]"]
  by (simp add: levelorder_def)

lemma mset_postorder_rec: "mset (postorder_rec t) = mset (nodes_of t)"
proof (induction t)
  case (Node n ks)
  have "mset (concat (map postorder_rec ks)) = mset (concat (map nodes_of ks))"
    using Node.IH by (induction ks) auto
  then show ?case by simp
qed

lemma mset_bfs: "mset (bfs ts) = mset (concat (map nodes_of ts))"
  by (induction ts rule: bfs.induct) auto

lemma child_in_nodes:
  "tree_at h t \<Longrightarrow> a \<in> set (nodes_of t) \<Longrightarrow> b \<in> set (Children (h a)) \<Longrightarrow> b \<in> set (nodes_of t)"
proof (induction t)
  case (Node n ks)
  show ?case
  proof (cases "a = n")
    case True
    with Node.prems obtain k where "k \<in> set ks" "b = root k" by auto
    then show ?thesis using root_in_nodes[of k] by auto
  next
    case False
    with Node.prems obtain k where k: "k \<in> set ks" "a \<in> set (nodes_of k)" by auto
    with Node.prems have "tree_at h k" by simp
    from Node.IH[OF k(1) this k(2) Node.prems(3)] k(1) show ?thesis by auto
  qed
qed

lemma nodes_reachable:
  "tree_at h t \<Longrightarrow> x \<in> set (nodes_of t) \<Longrightarrow> x \<in> reachable h (root t)"
proof (induction t)
  case (Node n ks)
  show ?case
  proof (cases "x = n")
    case True
    then show ?thesis by (simp add: reachable_def)
  next
    case False
    with Node.prems obtain k where k: "k \<in> set ks" "x \<in> set (nodes_of k)" by auto
    with Node.prems have tk: "tree_at h k" by simp
    have "(n, root k) \<in> {(a, b). b \<in> set (Children (h a))}"
      using Node.prems(1) k(1) by simp
    moreover have "(root k, x) \<in> rtrancl {(a, b). b \<in> set (Children (h a))}"
      using Node.IH[OF k(1) tk k(2)] by (simp add: reachable_def)
    ultimately show ?thesis
      unfolding reachable_def by (simp add: converse_rtrancl_into_rtrancl)
  qed
qed

lemma reachable_tree: "tree_at h t \<Longrightarrow> reachable h (root t) = set (nodes_of t)"
proof
  assume ta: "tree_at h t"
  show "reachable h (root t) \<subseteq> set (nodes_of t)"
  proof
    fix x
    assume "x \<in> reachable h (root t)"
    then have "(root t, x) \<in> rtrancl {(a, b). b \<in> set (Children (h a))}"
      by (simp add: reachable_def)
    then show "x \<in> set (nodes_of t)"
    proof (induction rule: rtrancl_induct)
      case base
      then show ?case by (rule root_in_nodes)
    next
      case (step y z)
      then show ?case using child_in_nodes[OF ta] by simp
    qed
  qed
  show "set (nodes_of t) \<subseteq> reachable h (root t)"
    using nodes_reachable[OF ta] by blast
qed

lemma mset_yielded:
  assumes "mset xs = mset (nodes_of t)" and "distinct (nodes_of t)"
  shows "mset (yielded incl r xs) = mset_set (set (nodes_of t) - (if incl then {} else {r}))"
proof -
  have d: "distinct xs" using assms by (metis mset_eq_imp_distinct_iff)
  have s: "set xs = set (nodes_of t)" using assms(1) by (rule mset_eq_setD)
  have "set (yielded incl r xs) = set (nodes_of t) - (if incl then {} else {r})"
    using s by (auto simp: yielded_def)
  moreover have "distinct (yielded incl r xs)" using d by (simp add: yielded_def)
  ultimately show ?thesis by (metis mset_set_set)
qed

lemma butlast_yielded:
  assumes "distinct (xs @ [r])"
  shows "(if incl then xs @ [r] else butlast (xs @ [r])) = yielded incl r (xs @ [r])"
proof -
  from assms have "filter (\<lambda>x. x \<noteq> r) xs = xs" by (auto simp: filter_id_conv)
  then show ?thesis by (simp add: yielded_def)
qed

text \<open>
  C4, as stated, fails: with \<open>include_self\<close> false none of the three traversals yields
  the start node, which is reachable from itself.
\<close>

theorem traversals_skip_start_node:
  "preorder chain_heap 0 False = Some [2, 3, 4]
   \<and> postorder chain_heap 0 False = Some (Inr [3, 2, 4])
   \<and> levelorder chain_heap 0 False = Some [2, 4, 3]
   \<and> 0 \<in> reachable chain_heap 0"
  by (simp add: preorder_def preorder_loop.simps postorder_def postorder_loop.simps
      levelorder_def levelorder_loop.simps chain_heap_simps TreeNode_def reachable_def)

text \<open>
  C4, amended. For every tree \<open>T\<close> held in the store, each of \<open>preorder\<close>, \<open>postorder\<close> and
  \<open>levelorder\<close> returns, and the multiset of the nodes it yields is: every node reachable
  from \<open>T\<close> exactly once when \<open>include_self\<close> is true; every node reachable from \<open>T\<close>
  other than \<open>T\<close> itself exactly once when \<open>include_self\<close> is false.
\<close>

theorem traversals_yield_each_node_once:
  assumes "is_tree h t"
  shows "\<exists>pre post lev.
           preorder h (root t) include_self = Some pre
         \<and> postorder h (root t) include_self = Some (Inr post)
         \<and> levelorder h (root t) include_self = Some lev
         \<and> mset pre = mset_set (reachable h (root t) - (if include_self then {} else {root t}))
         \<and> mset post = mset_set (reachable h (root t) - (if include_self then {} else {root t}))
         \<and> mset lev = mset_set (reachable h (root t) - (if include_self then {} else {root t}))"
proof -
  from assms have ta: "tree_at h t" and d: "distinct (nodes_of t)" by (simp_all add: is_tree_def)
  have r: "reachable h (root t) = set (nodes_of t)" by (rule reachable_tree[OF ta])
  have dp: "distinct (postorder_rec t)"
    using d mset_postorder_rec[of t] by (metis mset_eq_imp_distinct_iff)
  have pr: "postorder_rec t = concat (map postorder_rec (kids t)) @ [root t]" by (cases t) simp
  have post: "postorder h (root t) include_self =
      Some (Inr (yielded include_self (root t) (postorder_rec t)))"
    using postorder_refines_recursive[OF assms, of include_self] dp
      butlast_yielded[of "concat (map postorder_rec (kids t))" "root t" include_self]
    unfolding pr by simp
  have "mset (bfs [t]) = mset (nodes_of t)" by (simp add: mset_bfs)
  then show ?thesis
    unfolding r
    using preorder_tree[OF ta] levelorder_tree[OF ta] post
      mset_yielded[OF refl d] mset_yielded[OF mset_postorder_rec d] mset_yielded[OF _ d]
    by blast
qed

theorem traversals_yield_each_node_once_witness:
  "is_tree chain_heap chain_tree
   \<and> preorder chain_heap 0 True = Some [0, 2, 3, 4]
   \<and> levelorder chain_heap 0 True = Some [0, 2, 4, 3]
   \<and> (\<exists>pre post lev.
           preorder chain_heap 0 True = Some pre
         \<and> postorder chain_heap 0 True = Some (Inr post)
         \<and> levelorder chain_heap 0 True = Some lev
         \<and> mset pre = mset_set (reachable chain_heap 0)
         \<and> mset post = mset_set (reachable chain_heap 0)
         \<and> mset lev = mset_set (reachable chain_heap 0))"
proof -
  have a: "preorder chain_heap 0 True = Some [0, 2, 3, 4]"
    by (simp add: preorder_def preorder_loop.simps chain_heap_simps TreeNode_def)
  have b: "levelorder chain_heap 0 True = Some [0, 2, 4, 3]"
    by (simp add: levelorder_def levelorder_loop.simps chain_heap_simps TreeNode_def)
  from traversals_yield_each_node_once[OF chain_is_tree, of True] chain_is_tree a b
  show ?thesis by (simp add: chain_tree_def)
qed

subsection \<open>The Newick text of a tree\<close>

lemma tokens_last: "\<exists>ts. tokens h s w e t = ts @ ['','']"
  by (cases t) simp

lemma tokens_nonempty: "tokens h s w e t \<noteq> []"
  by (cases t) simp

lemma concat_tokens_nonempty: "ks \<noteq> [] \<Longrightarrow> concat (map (tokens h s w e) ks) \<noteq> []"
  by (cases ks) (simp_all add: tokens_nonempty)

lemma newick_visit_child:
  assumes "u < length (Children (h n))" and "R \<noteq> []"
  shows "to_newick_loop h s w e (S @ [(n, Suc u)]) R =
         to_newick_loop h s w e
           ((S @ [(n, u)]) @ [(Children (h n) ! (length (Children (h n)) - Suc u),
                 length (Children (h (Children (h n) ! (length (Children (h n)) - Suc u)))))])
           (R @ (if Children (h (Children (h n) ! (length (Children (h n)) - Suc u))) \<noteq> []
                 then [''(''] else []))"
  using assms by (subst to_newick_loop.simps) (simp add: Let_def)

lemma newick_post_visit:
  assumes "R \<noteq> []"
  shows "to_newick_loop h s w e (S @ [(n, 0)]) R =
         to_newick_loop h s w e S
           ((if Children (h n) \<noteq> [] then butlast R @ ['')''] else R)
            @ [newick_label h s w e n, '',''])"
  using assms
  by (subst to_newick_loop.simps)
     (simp add: Let_def newick_label_def butlast_append split: option.splits)

lemma newick_children:
  assumes ch: "Children (h n) = map root ks"
    and sub: "\<And>k S R. k \<in> set ks \<Longrightarrow> R @ open_paren k \<noteq> [] \<Longrightarrow>
       to_newick_loop h s w e (S @ [(root k, length (kids k))]) (R @ open_paren k) =
       to_newick_loop h s w e S (R @ tokens h s w e k)"
    and kid: "\<And>k. k \<in> set ks \<Longrightarrow> Children (h (root k)) = map root (kids k)"
  shows "u \<le> length ks \<Longrightarrow> R \<noteq> [] \<Longrightarrow>
         to_newick_loop h s w e (S @ [(n, u)]) R =
         to_newick_loop h s w e (S @ [(n, 0)])
           (R @ concat (map (tokens h s w e) (drop (length ks - u) ks)))"
proof (induction u arbitrary: R)
  case 0
  then show ?case by simp
next
  case (Suc u)
  let ?i = "length ks - Suc u"
  let ?k = "ks ! ?i"
  have i: "?i < length ks" using Suc.prems by simp
  have kin: "?k \<in> set ks" using i by simp
  have ul: "u < length (Children (h n))" using Suc.prems ch by simp
  have ci: "Children (h n) ! (length (Children (h n)) - Suc u) = root ?k"
    using ch i by simp
  have ck: "Children (h (root ?k)) = map root (kids ?k)" by (rule kid[OF kin])
  have op: "(if Children (h (root ?k)) \<noteq> [] then [''(''] else []) = open_paren ?k"
    by (simp add: ck open_paren_def)
  have dr: "drop ?i ks = ?k # drop (length ks - u) ks"
    using i Suc.prems by (metis Cons_nth_drop_Suc Suc_diff_Suc Suc_le_lessD)
  have "to_newick_loop h s w e (S @ [(n, Suc u)]) R =
        to_newick_loop h s w e ((S @ [(n, u)]) @ [(root ?k, length (kids ?k))]) (R @ open_paren ?k)"
    unfolding newick_visit_child[where h=h and n=n and u=u and R=R, OF ul Suc.prems(2)] ci op
    by (simp add: ck)
  also have "\<dots> = to_newick_loop h s w e (S @ [(n, u)]) (R @ tokens h s w e ?k)"
    by (rule sub[OF kin]) (simp add: Suc.prems)
  also have "\<dots> = to_newick_loop h s w e (S @ [(n, 0)])
           ((R @ tokens h s w e ?k) @ concat (map (tokens h s w e) (drop (length ks - u) ks)))"
    by (rule Suc.IH) (use Suc.prems in simp_all)
  finally show ?case unfolding dr by simp
qed

lemma newick_subtree:
  "tree_at h t \<Longrightarrow> R @ open_paren t \<noteq> [] \<Longrightarrow>
   to_newick_loop h s w e (S @ [(root t, length (kids t))]) (R @ open_paren t) =
   to_newick_loop h s w e S (R @ tokens h s w e t)"
proof (induction t arbitrary: S R)
  case (Node n ks)
  have ch: "Children (h n) = map root ks" using Node.prems(1) by simp
  have sub: "to_newick_loop h s w e (S @ [(root k, length (kids k))]) (R @ open_paren k) =
       to_newick_loop h s w e S (R @ tokens h s w e k)"
    if "k \<in> set ks" "R @ open_paren k \<noteq> []" for k S R
    using Node.IH[OF that(1) _ that(2)] Node.prems(1) that(1) by simp
  have kid: "Children (h (root k)) = map root (kids k)" if "k \<in> set ks" for k
    using Node.prems(1) that tree_at_Children by auto
  let ?R = "R @ open_paren (Node n ks)"
  let ?C = "concat (map (tokens h s w e) ks)"
  have ne: "?R @ ?C \<noteq> []" using Node.prems(2) by auto
  have "to_newick_loop h s w e (S @ [(n, length ks)]) ?R =
        to_newick_loop h s w e (S @ [(n, 0)])
           (?R @ concat (map (tokens h s w e) (drop (length ks - length ks) ks)))"
    by (rule newick_children[OF ch sub kid]) (use Node.prems(2) in simp_all)
  also have "\<dots> = to_newick_loop h s w e (S @ [(n, 0)]) (?R @ ?C)" by simp
  also have "\<dots> = to_newick_loop h s w e S
      ((if Children (h n) \<noteq> [] then butlast (?R @ ?C) @ ['')''] else ?R @ ?C)
       @ [newick_label h s w e n, '',''])"
    by (rule newick_post_visit[OF ne])
  also have "(if Children (h n) \<noteq> [] then butlast (?R @ ?C) @ ['')''] else ?R @ ?C)
       @ [newick_label h s w e n, '',''] = R @ tokens h s w e (Node n ks)"
    using concat_tokens_nonempty[of ks h s w e]
    by (auto simp: ch open_paren_def butlast_append)
  finally show ?case by simp
qed

lemma concat_butlast_tokens:
  assumes "concat (tokens h s w e t) = x @ '',''"
  shows "concat (butlast (tokens h s w e t)) = x"
proof -
  obtain ts where ts: "tokens h s w e t = ts @ ['','']" using tokens_last by blast
  with assms show ?thesis by simp
qed

lemma join_tokens:
  "ks \<noteq> [] \<Longrightarrow>
   \<forall>k \<in> set ks. concat (tokens h s w e k) = newick_rec h s w e k @ '','' \<Longrightarrow>
   concat (butlast (concat (map (tokens h s w e) ks))) = join_commas (map (newick_rec h s w e) ks)"
proof (induction ks)
  case Nil
  then show ?case by simp
next
  case (Cons k ks)
  show ?case
  proof (cases ks)
    case Nil
    with Cons.prems show ?thesis by (simp add: concat_butlast_tokens)
  next
    case (Cons k' ks')
    then have ne: "concat (map (tokens h s w e) ks) \<noteq> []"
      by (simp add: tokens_nonempty)
    have ih: "concat (butlast (concat (map (tokens h s w e) ks))) =
          join_commas (map (newick_rec h s w e) ks)"
      using Cons.IH Cons.prems Cons by simp
    have k: "concat (tokens h s w e k) = newick_rec h s w e k @ '',''"
      using Cons.prems by simp
    have "butlast (concat (map (tokens h s w e) (k # ks))) =
          tokens h s w e k @ butlast (concat (map (tokens h s w e) ks))"
      using ne by (auto simp: butlast_append)
    then have "concat (butlast (concat (map (tokens h s w e) (k # ks)))) =
          (newick_rec h s w e k @ '','') @ join_commas (map (newick_rec h s w e) ks)"
      using ih k by simp
    then show ?thesis unfolding Cons by simp
  qed
qed

lemma concat_tokens: "concat (tokens h s w e t) = newick_rec h s w e t @ '',''"
proof (induction t)
  case (Node n ks)
  have "ks \<noteq> [] \<Longrightarrow> concat (butlast (concat (map (tokens h s w e) ks))) =
        join_commas (map (newick_rec h s w e) ks)"
    by (rule join_tokens) (use Node.IH in simp_all)
  then show ?case by simp
qed

lemma length_tokens: "kids t \<noteq> [] \<Longrightarrow> 3 < length (tokens h s w e t)"
proof (cases t)
  case (Node n ks)
  assume "kids t \<noteq> []"
  with Node obtain k ks' where ks: "ks = k # ks'" by (cases ks) auto
  obtain ts where "tokens h s w e k = ts @ ['','']" using tokens_last by blast
  moreover have "ts \<noteq> []" using calculation by (cases k) auto
  ultimately have "2 \<le> length (concat (map (tokens h s w e) ks))"
    using ks by (cases ts) auto
  then show ?thesis using Node ks by simp
qed

theorem to_newick_tree:
  assumes "tree_at h t"
  shows "to_newick h str_of (root t) with_distances semicolon escape_name =
           Some (Inr (newick_rec h str_of with_distances escape_name t
                      @ (if semicolon then '';'' else [])))"
proof (cases "kids t = []")
  case True
  then have t: "t = Node (root t) []" by (cases t) simp
  have ch: "Children (h (root t)) = []" using assms True tree_at_Children by simp
  have "to_newick_loop h str_of with_distances escape_name
          ([] @ [(root t, length (kids t))]) ([''(''] @ open_paren t) =
        to_newick_loop h str_of with_distances escape_name []
          ([''(''] @ tokens h str_of with_distances escape_name t)"
    by (rule newick_subtree[OF assms]) simp
  then have "to_newick_loop h str_of with_distances escape_name [(root t, 0)] [''(''] =
     Some (Inr ([''(''] @ tokens h str_of with_distances escape_name t))"
    using True by (simp add: open_paren_def to_newick_loop.simps)
  moreover have "tokens h str_of with_distances escape_name t =
     [newick_rec h str_of with_distances escape_name t, '','']"
    by (subst t, subst (2) t) simp
  ultimately show ?thesis by (simp add: to_newick_def ch)
next
  case False
  then have ch: "length (Children (h (root t))) = length (kids t)"
    using assms tree_at_Children by simp
  have "to_newick_loop h str_of with_distances escape_name
          ([] @ [(root t, length (kids t))]) ([] @ open_paren t) =
        to_newick_loop h str_of with_distances escape_name []
          ([] @ tokens h str_of with_distances escape_name t)"
    by (rule newick_subtree[OF assms]) (simp add: open_paren_def False)
  then have loop: "to_newick_loop h str_of with_distances escape_name
      [(root t, length (kids t))] [''(''] =
     Some (Inr (tokens h str_of with_distances escape_name t))"
    using False by (simp add: open_paren_def to_newick_loop.simps)
  have len: "3 < length (tokens h str_of with_distances escape_name t)"
    by (rule length_tokens[OF False])
  have cb: "concat (butlast (tokens h str_of with_distances escape_name t)) =
     newick_rec h str_of with_distances escape_name t"
    by (rule concat_butlast_tokens[OF concat_tokens])
  show ?thesis using len cb by (simp add: to_newick_def ch loop)
qed

lemma newick_heap_simps:
  "newick_heap 0 = (TreeNode (Some ''root node'') None None)\<lparr>Children := [2, 3]\<rparr>"
  "newick_heap 2 = TreeNode (Some ''a_b'') None (Some 0)"
  "newick_heap 3 = TreeNode (Some [quote, CHR ''q'', quote]) None (Some 0)"
  by (simp_all add: newick_heap_def)

text \<open>
  C8, amended. For every tree held in the store, \<open>to_newick\<close> with \<open>escape_name\<close>
  requested returns the recursive Newick text in which every node stands with its name
  as follows: a name that begins and ends with a single
  quote is written unchanged; every other name that contains one of the characters
  \<open>[ ] ' " ( ) , : ; _\<close> is written wrapped in single quotes with every single quote in it
  doubled, and every other name that contains none of them is written with each space
  replaced by an underscore.
\<close>

theorem to_newick_names:
  assumes "tree_at h t"
  shows "to_newick h str_of (root t) with_distances semicolon True =
           Some (Inr (newick_rec h str_of with_distances True t
                      @ (if semicolon then '';'' else [])))
         \<and> (\<forall>name. newick_name True (Some name) =
               (if name \<noteq> [] \<and> hd name = quote \<and> last name = quote then name
                else if \<exists>c \<in> set name. c \<in> set newick_specials
                     then [quote] @ concat (map (\<lambda>c. if c = quote then [quote, quote] else [c]) name)
                          @ [quote]
                     else map (\<lambda>c. if c = CHR '' '' then CHR ''_'' else c) name))"
  using to_newick_tree[OF assms]
  by (simp add: newick_name_def double_quotes_def spaces_to_underscores_def)

theorem to_newick_names_witness:
  "tree_at newick_heap newick_tree
   \<and> to_newick newick_heap str_blank 0 False True True =
       Some (Inr (''('' @ [quote] @ ''a_b'' @ [quote] @ '','' @ [quote] @ ''q'' @ [quote]
                  @ '')root_node;''))"
proof -
  have a: "tree_at newick_heap newick_tree"
    by (simp add: newick_tree_def newick_heap_simps TreeNode_def)
  from to_newick_names[OF a, of str_blank False True] a
  show ?thesis
    by (simp add: newick_tree_def newick_label_def newick_heap_simps TreeNode_def
        newick_name_def newick_specials_def quote_def double_quotes_def spaces_to_underscores_def)
qed

subsection \<open>The tip-to-tip distance matrix\<close>

lemma square_nth: "square n res \<Longrightarrow> i < n \<Longrightarrow> length (res ! i) = n"
  by (simp add: square_def list_all_length)

lemma square_update:
  assumes "square n res" "i < n" "j < n"
  shows "square n (res[i := (res ! i)[j := v]])"
  using assms by (auto simp: square_def list_all_length nth_list_update)

lemma nth_update2:
  assumes "square n res" "a < n" "b < n" "i < n" "j < n"
  shows "res[a := (res ! a)[b := v]] ! i ! j = (if i = a \<and> j = b then v else res ! i ! j)"
  using assms by (auto simp: square_def list_all_length nth_list_update)

lemma length_add_slice: "length (add_slice ds s e l) = length ds"
  by (simp add: add_slice_def)

lemma nth_add_slice:
  "i < length ds \<Longrightarrow> add_slice ds s e l ! i = (if s \<le> i \<and> i < e then ds ! i + l else ds ! i)"
  by (simp add: add_slice_def)

lemma update_tip2_spec:
  assumes "length ds = n" and "\<forall>i<n. map_of rm i = Some i" and "tip1 < n"
  shows "square n res \<Longrightarrow> \<forall>j \<in> set range2. j < n \<Longrightarrow>
         \<exists>res'. update_tip2 rm ds tip1 tip1 res range2 = Inr res' \<and> square n res'
           \<and> (\<forall>i<n. \<forall>j<n. res' ! i ! j =
                 (if i = tip1 \<and> j \<in> set range2 then ds ! tip1 + ds ! j else res ! i ! j))"
proof (induction range2 arbitrary: res)
  case Nil
  then show ?case by simp
next
  case (Cons tip2 rest)
  let ?res1 = "res[tip1 := (res ! tip1)[tip2 := ds ! tip1 + ds ! tip2]]"
  have t2: "tip2 < n" using Cons.prems(2) by simp
  have sq1: "square n ?res1" by (rule square_update[OF Cons.prems(1) assms(3) t2])
  have rest: "\<forall>j \<in> set rest. j < n" using Cons.prems(2) by simp
  from Cons.IH[OF sq1 rest] obtain res' where
    r: "update_tip2 rm ds tip1 tip1 ?res1 rest = Inr res'" and sq': "square n res'"
    and v: "\<forall>i<n. \<forall>j<n. res' ! i ! j =
                 (if i = tip1 \<and> j \<in> set rest then ds ! tip1 + ds ! j else ?res1 ! i ! j)"
    by blast
  have step: "update_tip2 rm ds tip1 tip1 res (tip2 # rest) = Inr res'"
    using assms t2 r square_nth[OF Cons.prems(1) assms(3)] Cons.prems(1)
    by (simp add: square_def)
  have "\<forall>i<n. \<forall>j<n. res' ! i ! j =
                 (if i = tip1 \<and> j \<in> set (tip2 # rest) then ds ! tip1 + ds ! j else res ! i ! j)"
    using v nth_update2[OF Cons.prems(1) assms(3) t2] by auto
  with step sq' show ?case by blast
qed

lemma update_tip1_spec:
  assumes "length ds = n" and "\<forall>i<n. map_of rm i = Some i" and "\<forall>j \<in> set range2. j < n"
  shows "square n res \<Longrightarrow> \<forall>i \<in> set range1. i < n \<Longrightarrow>
         \<exists>res'. update_tip1 rm ds res range1 range2 = Inr res' \<and> square n res'
           \<and> (\<forall>i<n. \<forall>j<n. res' ! i ! j =
                 (if i \<in> set range1 \<and> j \<in> set range2 then ds ! i + ds ! j else res ! i ! j))"
proof (induction range1 arbitrary: res)
  case Nil
  then show ?case by simp
next
  case (Cons tip1 rest)
  have t1: "tip1 < n" using Cons.prems(2) by simp
  from update_tip2_spec[OF assms(1,2) t1 Cons.prems(1) assms(3)] obtain res1 where
    r1: "update_tip2 rm ds tip1 tip1 res range2 = Inr res1" and sq1: "square n res1"
    and v1: "\<forall>i<n. \<forall>j<n. res1 ! i ! j =
                 (if i = tip1 \<and> j \<in> set range2 then ds ! tip1 + ds ! j else res ! i ! j)"
    by blast
  have rest: "\<forall>i \<in> set rest. i < n" using Cons.prems(2) by simp
  from Cons.IH[OF sq1 rest] obtain res' where
    r: "update_tip1 rm ds res1 rest range2 = Inr res'" and sq': "square n res'"
    and v: "\<forall>i<n. \<forall>j<n. res' ! i ! j =
                 (if i \<in> set rest \<and> j \<in> set range2 then ds ! i + ds ! j else res1 ! i ! j)"
    by blast
  have step: "update_tip1 rm ds res (tip1 # rest) range2 = Inr res'"
    using assms(2) t1 r1 r by simp
  have "\<forall>i<n. \<forall>j<n. res' ! i ! j =
      (if i \<in> set (tip1 # rest) \<and> j \<in> set range2 then ds ! i + ds ! j else res ! i ! j)"
    using v v1 by auto
  with step sq' show ?case by blast
qed

lemma update_pairs_spec:
  assumes "length ds = n" and "\<forall>i<n. map_of rm i = Some i"
  shows "square n res \<Longrightarrow>
         \<forall>(c1, c2) \<in> set ps. start_stop (h c1) \<noteq> None \<and> start_stop (h c2) \<noteq> None
            \<and> slice h c1 \<subseteq> {..<n} \<and> slice h c2 \<subseteq> {..<n} \<Longrightarrow>
         \<exists>res'. update_pairs h rm ds res ps = Inr res' \<and> square n res'
           \<and> (\<forall>i<n. \<forall>j<n. res' ! i ! j =
                 (if \<exists>(c1, c2) \<in> set ps. i \<in> slice h c1 \<and> j \<in> slice h c2
                  then ds ! i + ds ! j else res ! i ! j))"
proof (induction ps arbitrary: res)
  case Nil
  then show ?case by simp
next
  case (Cons p ps)
  obtain c1 c2 where p: "p = (c1, c2)" by (cases p)
  from Cons.prems(2) p obtain s1 e1 s2 e2 where
    ss1: "start_stop (h c1) = Some (s1, e1)" and ss2: "start_stop (h c2) = Some (s2, e2)"
    by auto
  have sl1: "slice h c1 = set [s1..<e1]" and sl2: "slice h c2 = set [s2..<e2]"
    using ss1 ss2 by (simp_all add: slice_def)
  have b1: "\<forall>i \<in> set [s1..<e1]. i < n" and b2: "\<forall>j \<in> set [s2..<e2]. j < n"
    using Cons.prems(2) p sl1 sl2 by auto
  from update_tip1_spec[OF assms b2 Cons.prems(1) b1] obtain res1 where
    r1: "update_tip1 rm ds res [s1..<e1] [s2..<e2] = Inr res1" and sq1: "square n res1"
    and v1: "\<forall>i<n. \<forall>j<n. res1 ! i ! j =
       (if i \<in> set [s1..<e1] \<and> j \<in> set [s2..<e2] then ds ! i + ds ! j else res ! i ! j)"
    by blast
  have rest: "\<forall>(c1, c2) \<in> set ps. start_stop (h c1) \<noteq> None \<and> start_stop (h c2) \<noteq> None
            \<and> slice h c1 \<subseteq> {..<n} \<and> slice h c2 \<subseteq> {..<n}"
    using Cons.prems(2) by simp
  from Cons.IH[OF sq1 rest] obtain res' where
    r: "update_pairs h rm ds res1 ps = Inr res'" and sq': "square n res'"
    and v: "\<forall>i<n. \<forall>j<n. res' ! i ! j =
                 (if \<exists>(c1, c2) \<in> set ps. i \<in> slice h c1 \<and> j \<in> slice h c2
                  then ds ! i + ds ! j else res1 ! i ! j)"
    by blast
  have step: "update_pairs h rm ds res (p # ps) = Inr res'"
    using p ss1 ss2 r1 r by simp
  have "\<forall>i<n. \<forall>j<n. res' ! i ! j =
                 (if \<exists>(c1, c2) \<in> set (p # ps). i \<in> slice h c1 \<and> j \<in> slice h c2
                  then ds ! i + ds ! j else res ! i ! j)"
    using v v1 p sl1 sl2 by auto
  with step sq' show ?case by blast
qed

lemma add_children_spec:
  "\<forall>c \<in> set cs. start_stop (h c) \<noteq> None \<Longrightarrow>
   \<exists>ds'. add_children h dl ds st sp cs =
           Inr (ds', st @ map (\<lambda>c. fst (the (start_stop (h c)))) cs,
                sp @ map (\<lambda>c. snd (the (start_stop (h c)))) cs)
     \<and> length ds' = length ds
     \<and> (\<forall>i < length ds. ds' ! i =
           ds ! i + sum_list (map (\<lambda>c. if i \<in> slice h c then branch_len h dl c else 0) cs))"
proof (induction cs arbitrary: ds st sp)
  case Nil
  then show ?case by simp
next
  case (Cons c cs)
  from Cons.prems obtain s e where ss: "start_stop (h c) = Some (s, e)" by auto
  let ?ds1 = "add_slice ds s e (branch_len h dl c)"
  have rest: "\<forall>c \<in> set cs. start_stop (h c) \<noteq> None" using Cons.prems by simp
  from Cons.IH[OF rest, of ?ds1 "st @ [s]" "sp @ [e]"] obtain ds' where
    r: "add_children h dl ?ds1 (st @ [s]) (sp @ [e]) cs =
           Inr (ds', (st @ [s]) @ map (\<lambda>c. fst (the (start_stop (h c)))) cs,
                (sp @ [e]) @ map (\<lambda>c. snd (the (start_stop (h c)))) cs)"
    and l: "length ds' = length ?ds1"
    and v: "\<forall>i < length ?ds1. ds' ! i =
           ?ds1 ! i + sum_list (map (\<lambda>c. if i \<in> slice h c then branch_len h dl c else 0) cs)"
    by blast
  have step: "add_children h dl ds st sp (c # cs) =
           Inr (ds', st @ map (\<lambda>c. fst (the (start_stop (h c)))) (c # cs),
                sp @ map (\<lambda>c. snd (the (start_stop (h c)))) (c # cs))"
    using ss r by (simp add: branch_len_def)
  have "\<forall>i < length ds. ds' ! i =
           ds ! i + sum_list (map (\<lambda>c. if i \<in> slice h c then branch_len h dl c else 0) (c # cs))"
    using v ss by (auto simp: length_add_slice nth_add_slice slice_def)
  with step l show ?case by (auto simp: length_add_slice)
qed

lemma list_min_Min: "xs \<noteq> [] \<Longrightarrow> list_min xs = Min (set xs)"
proof (cases xs)
  case (Cons a list)
  then show ?thesis using Min.set_eq_fold[of a list] by (simp add: list_min_def)
qed simp

lemma list_max_Max: "xs \<noteq> [] \<Longrightarrow> list_max xs = Max (set xs)"
proof (cases xs)
  case (Cons a list)
  then show ?thesis using Max.set_eq_fold[of a list] by (simp add: list_max_def)
qed simp

lemma sum_list_single:
  "distinct xs \<Longrightarrow> x \<in> set xs \<Longrightarrow> \<forall>y \<in> set xs. y \<noteq> x \<longrightarrow> f y = 0 \<Longrightarrow>
   sum_list (map f xs) = (f x :: real)"
proof (induction xs)
  case Nil
  then show ?case by simp
next
  case (Cons a xs)
  show ?case
  proof (cases "a = x")
    case True
    with Cons.prems have "\<forall>y \<in> set xs. f y = 0" by auto
    then have "sum_list (map f xs) = 0" by (induction xs) auto
    with True show ?thesis by simp
  next
    case False
    with Cons.prems have "f a = 0" "x \<in> set xs" "distinct xs" by auto
    with Cons.IH Cons.prems show ?thesis by simp
  qed
qed

lemma sum_list_zero: "\<forall>y \<in> set xs. f y = 0 \<Longrightarrow> sum_list (map f xs) = (0 :: real)"
  by (induction xs) auto

lemma tips_of_nonempty: "tips_of t \<noteq> []"
proof (induction t)
  case (Node n ks)
  show ?case
  proof (cases ks)
    case Nil
    then show ?thesis by simp
  next
    case (Cons k ks')
    with Node.IH[of k] show ?thesis by simp
  qed
qed

lemma tips_subset_nodes: "set (tips_of t) \<subseteq> set (nodes_of t)"
  by (induction t) auto

lemma distinct_concat_sub:
  assumes "\<And>k. k \<in> set ks \<Longrightarrow> set (g k) \<subseteq> set (f k)"
    and "\<And>k. k \<in> set ks \<Longrightarrow> distinct (f k) \<Longrightarrow> distinct (g k)"
  shows "distinct (concat (map f ks)) \<Longrightarrow> distinct (concat (map g ks))"
  using assms
proof (induction ks)
  case Nil
  then show ?case by simp
next
  case (Cons k ks)
  have "set (g k) \<inter> set (concat (map g ks)) \<subseteq> set (f k) \<inter> set (concat (map f ks))"
    using Cons.prems(2) by fastforce
  with Cons show ?case by auto
qed

lemma distinct_tips: "distinct (nodes_of t) \<Longrightarrow> distinct (tips_of t)"
proof (induction t)
  case (Node n ks)
  have "distinct (concat (map tips_of ks))"
  proof (rule distinct_concat_sub[where f = nodes_of])
    show "distinct (concat (map nodes_of ks))" using Node.prems by simp
  qed (use Node.IH tips_subset_nodes in auto)
  then show ?case by simp
qed

lemma nodes_disjoint:
  "distinct (concat (map nodes_of ks)) \<Longrightarrow> k1 \<in> set ks \<Longrightarrow> k2 \<in> set ks \<Longrightarrow>
   x \<in> set (nodes_of k1) \<Longrightarrow> x \<in> set (nodes_of k2) \<Longrightarrow> k1 = k2"
proof (induction ks)
  case Nil
  then show ?case by simp
next
  case (Cons k ks)
  then show ?case by (cases "k1 = k"; cases "k2 = k") auto
qed

lemma distinct_kids: "distinct (concat (map nodes_of ks)) \<Longrightarrow> distinct ks"
proof (induction ks)
  case Nil
  then show ?case by simp
next
  case (Cons k ks)
  have "k \<notin> set ks"
  proof
    assume "k \<in> set ks"
    then have "root k \<in> set (concat (map nodes_of ks))" using root_in_nodes[of k] by auto
    with Cons.prems root_in_nodes[of k] show False by auto
  qed
  with Cons show ?case by simp
qed

lemma find_kid:
  "distinct (concat (map nodes_of ks)) \<Longrightarrow> k \<in> set ks \<Longrightarrow> x \<in> set (nodes_of k) \<Longrightarrow>
   List.find (\<lambda>k. x \<in> set (nodes_of k)) ks = Some k"
proof (induction ks)
  case Nil
  then show ?case by simp
next
  case (Cons k' ks)
  show ?case
  proof (cases "x \<in> set (nodes_of k')")
    case True
    have "k' = k"
      by (rule nodes_disjoint[OF Cons.prems(1) _ Cons.prems(2) True Cons.prems(3)]) simp
    with True show ?thesis by simp
  next
    case False
    with Cons show ?thesis by auto
  qed
qed

lemma path_kid:
  assumes "distinct (nodes_of (Node n ks))" and "k \<in> set ks" and "x \<in> set (nodes_of k)"
  shows "path_to (Node n ks) x = n # path_to k x"
proof -
  have "x \<noteq> n" using assms by auto
  moreover have "List.find (\<lambda>k. x \<in> set (nodes_of k)) ks = Some k"
    using find_kid assms by simp
  ultimately show ?thesis by (simp add: path_to.simps)
qed

lemma path_hd: "x \<in> set (nodes_of t) \<Longrightarrow> \<exists>p. path_to t x = root t # p"
proof (cases t)
  case (Node n ks)
  assume x: "x \<in> set (nodes_of t)"
  show ?thesis
  proof (cases "x = n")
    case True
    with Node show ?thesis by (simp add: path_to.simps)
  next
    case False
    with x Node obtain k where "k \<in> set ks" "x \<in> set (nodes_of k)" by auto
    then have "List.find (\<lambda>k. x \<in> set (nodes_of k)) ks \<noteq> None"
      by (auto simp: find_None_iff)
    with False Node show ?thesis by (auto simp: path_to.simps)
  qed
qed

lemma path_subset: "set (path_to t x) \<subseteq> set (nodes_of t)"
proof (induction t)
  case (Node n ks)
  show ?case
  proof (cases "List.find (\<lambda>k. x \<in> set (nodes_of k)) ks")
    case None
    then show ?thesis by (simp add: path_to.simps)
  next
    case (Some k)
    then have "k \<in> set ks" by (auto simp: find_Some_iff)
    with Node.IH[of k] Some show ?thesis by (auto simp: path_to.simps)
  qed
qed

lemma path_tl:
  assumes "distinct (nodes_of t)"
  shows "set (tl (path_to t x)) \<subseteq> set (nodes_of t) - {root t}"
proof (cases t)
  case (Node n ks)
  show ?thesis
  proof (cases "List.find (\<lambda>k. x \<in> set (nodes_of k)) ks")
    case None
    with Node show ?thesis by (simp add: path_to.simps)
  next
    case (Some k)
    then have k: "k \<in> set ks" by (auto simp: find_Some_iff)
    have "set (path_to k x) \<subseteq> set (nodes_of k)" by (rule path_subset)
    moreover have "n \<notin> set (nodes_of k)" using assms Node k by auto
    ultimately show ?thesis using Node Some k by (auto simp: path_to.simps)
  qed
qed

lemma down_len_root: "down_len h dl t (root t) = 0"
  by (cases t) (simp add: down_len_def path_to.simps)

lemma down_len_kid:
  assumes "distinct (nodes_of (Node n ks))" and "k \<in> set ks" and "a \<in> set (nodes_of k)"
  shows "down_len h dl (Node n ks) a = branch_len h dl (root k) + down_len h dl k a"
proof -
  obtain p where p: "path_to k a = root k # p" using path_hd[OF assms(3)] by blast
  show ?thesis by (simp add: down_len_def path_kid[OF assms] p)
qed

lemma path_len_same:
  assumes "distinct (nodes_of (Node n ks))" and "k \<in> set ks"
    and "a \<in> set (nodes_of k)" and "b \<in> set (nodes_of k)"
  shows "path_len h dl (Node n ks) a b = path_len h dl k a b"
  by (simp add: path_len_def Let_def path_kid[OF assms(1,2,3)] path_kid[OF assms(1,2,4)])

lemma path_len_diff:
  assumes "distinct (nodes_of (Node n ks))" and "k1 \<in> set ks" and "k2 \<in> set ks"
    and "a \<in> set (nodes_of k1)" and "b \<in> set (nodes_of k2)" and "k1 \<noteq> k2"
  shows "path_len h dl (Node n ks) a b = down_len h dl (Node n ks) a + down_len h dl (Node n ks) b"
proof -
  obtain p where p: "path_to k1 a = root k1 # p" using path_hd[OF assms(4)] by blast
  obtain q where q: "path_to k2 b = root k2 # q" using path_hd[OF assms(5)] by blast
  have "root k1 \<noteq> root k2"
    using nodes_disjoint[of ks k1 k2 "root k1"] assms root_in_nodes[of k1] root_in_nodes[of k2]
    by auto
  then show ?thesis
    by (simp add: path_len_def Let_def down_len_def path_kid[OF assms(1,2,4)]
        path_kid[OF assms(1,3,5)] p q)
qed

lemma common_prefix_length:
  "length (common_prefix xs ys) \<le> length xs \<and> length (common_prefix xs ys) \<le> length ys"
  by (induction xs ys rule: common_prefix.induct) auto

lemma common_prefix_same: "common_prefix xs xs = xs"
  by (induction xs) auto

lemma path_len_unit:
  assumes "distinct (nodes_of t)"
    and "\<forall>x \<in> set (nodes_of t) - {root t}. Length (h x) = Some 1"
    and "a \<in> set (nodes_of t)" and "b \<in> set (nodes_of t)"
  shows "path_len h dl t a b = real (path_edges t a b)"
proof -
  obtain p where p: "path_to t a = root t # p" using path_hd[OF assms(3)] by blast
  obtain q where q: "path_to t b = root t # q" using path_hd[OF assms(4)] by blast
  let ?c = "length (common_prefix p q)"
  have c: "length (common_prefix (path_to t a) (path_to t b)) = Suc ?c" by (simp add: p q)
  have unit: "sum_list (map (branch_len h dl) ys) = real (length ys)"
    if "set ys \<subseteq> set (nodes_of t) - {root t}" for ys
    using that assms(2) by (induction ys) (auto simp: branch_len_def)
  have sp: "set (drop ?c p) \<subseteq> set (nodes_of t) - {root t}"
    using path_tl[OF assms(1), of a] p set_drop_subset[of ?c p] by auto
  have sq: "set (drop ?c q) \<subseteq> set (nodes_of t) - {root t}"
    using path_tl[OF assms(1), of b] q set_drop_subset[of ?c q] by auto
  show ?thesis
    unfolding path_len_def path_edges_def Let_def c
    by (simp add: p q unit[OF sp] unit[OF sq])
qed

lemma path_edges_same: "path_edges t a a = 0"
  by (simp add: path_edges_def common_prefix_same)

lemma distances_nodes_append:
  "distances_nodes rm dl h ds res (xs @ ys) =
     (case distances_nodes rm dl h ds res xs of
        (h1, Inl e) \<Rightarrow> (h1, Inl e)
      | (h1, Inr (ds1, res1)) \<Rightarrow> distances_nodes rm dl h1 ds1 res1 ys)"
proof (induction xs arbitrary: h ds res)
  case Nil
  then show ?case by simp
next
  case (Cons x xs)
  show ?case
  proof (cases "distances_node rm dl h ds res x")
    case (Pair h1 r)
    then show ?thesis using Cons.IH by (cases r) auto
  qed
qed

lemma tree_at_same:
  assumes "\<forall>x. Children (h' x) = Children (h x) \<and> Parent (h' x) = Parent (h x)"
  shows "tree_at h' t = tree_at h t"
  using assms by (induction t) auto

lemma branch_len_same:
  "\<forall>x. Length (h' x) = Length (h x) \<Longrightarrow> branch_len h' dl = branch_len h dl"
  by (auto simp: branch_len_def fun_eq_iff)

lemma down_len_same:
  "\<forall>x. Length (h' x) = Length (h x) \<Longrightarrow> down_len h' dl k a = down_len h dl k a"
  using branch_len_same[of h' h dl] by (simp add: down_len_def)

lemma path_len_same_heap:
  "\<forall>x. Length (h' x) = Length (h x) \<Longrightarrow> path_len h' dl k a b = path_len h dl k a b"
  using branch_len_same[of h' h dl] by (simp add: path_len_def)

lemma contig_split:
  assumes "map pos (xs @ ys) = [lo..<lo + length (xs @ ys)]"
  shows "map pos xs = [lo..<lo + length xs]"
    and "map pos ys = [lo + length xs..<lo + length xs + length ys]"
proof -
  have "[lo..<lo + length xs + length ys] =
        [lo..<lo + length xs] @ [lo + length xs..<lo + length xs + length ys]"
    by (rule upt_add_eq_append) simp
  then have "map pos xs @ map pos ys =
      [lo..<lo + length xs] @ [lo + length xs..<lo + length xs + length ys]"
    using assms by (simp add: add.assoc)
  then show "map pos xs = [lo..<lo + length xs]"
    and "map pos ys = [lo + length xs..<lo + length xs + length ys]"
    by (simp_all add: append_eq_append_conv)
qed

lemma contig_kid:
  "map pos (concat (map tips_of ks)) = [lo..<lo + length (concat (map tips_of ks))] \<Longrightarrow>
   k \<in> set ks \<Longrightarrow> \<exists>l. map pos (tips_of k) = [l..<l + length (tips_of k)]"
proof (induction ks arbitrary: lo)
  case Nil
  then show ?case by simp
next
  case (Cons k' ks)
  from Cons.prems(1) have c: "map pos (tips_of k' @ concat (map tips_of ks)) =
      [lo..<lo + length (tips_of k' @ concat (map tips_of ks))]" by simp
  show ?case
  proof (cases "k = k'")
    case True
    with contig_split(1)[OF c] show ?thesis by blast
  next
    case False
    with Cons.prems(2) have "k \<in> set ks" by simp
    with Cons.IH[OF contig_split(2)[OF c]] show ?thesis by simp
  qed
qed

lemma contig_image:
  assumes "map pos xs = [l..<l + length xs]" and "xs \<noteq> []"
  shows "pos ` set xs = {l..<l + length xs}"
    and "Min (pos ` set xs) = l" and "Suc (Max (pos ` set xs)) = l + length xs"
proof -
  have "set (map pos xs) = set [l..<l + length xs]" using assms(1) by simp
  then show i: "pos ` set xs = {l..<l + length xs}" by simp
  obtain m where m: "length xs = Suc m" using assms(2) by (cases xs) auto
  have "Min {l..<l + Suc m} = l"
  proof (rule Min_eqI)
    show "l \<in> {l..<l + Suc m}" by simp
  qed simp_all
  then show "Min (pos ` set xs) = l" unfolding i m .
  have "Max {l..<l + Suc m} = l + m"
  proof (rule Max_eqI)
    show "l + m \<in> {l..<l + Suc m}" by simp
    show "y \<le> l + m" if "y \<in> {l..<l + Suc m}" for y using that by simp
  qed simp
  then show "Suc (Max (pos ` set xs)) = l + length xs" unfolding i m by simp
qed

lemma contig_inj:
  assumes "map pos xs = [l..<l + length xs]"
  shows "inj_on pos (set xs)" and "distinct xs"
proof -
  have "distinct (map pos xs)" unfolding assms by simp
  then show "inj_on pos (set xs)" and "distinct xs" by (simp_all add: distinct_map)
qed

lemma nodes_disjoint_tips:
  assumes "distinct (concat (map nodes_of ks))" and "k1 \<in> set ks" and "k2 \<in> set ks"
    and "a \<in> set (tips_of k1)" and "a \<in> set (tips_of k2)"
  shows "k1 = k2"
  using nodes_disjoint[OF assms(1,2,3)] assms(4,5) tips_subset_nodes by blast

lemma ready_inj:
  assumes "ready n rm pos h ds res ks"
  shows "inj_on pos (set (concat (map tips_of ks)))"
  using assms contig_inj(1) unfolding ready_def by blast

lemma ready_head:
  assumes "ready n rm pos h ds res (k # ks)"
  shows "ready n rm pos h ds res [k]"
proof -
  from assms obtain lo where
    c: "map pos (tips_of k @ concat (map tips_of ks)) =
        [lo..<lo + length (tips_of k @ concat (map tips_of ks))]"
    unfolding ready_def by auto
  from contig_split(1)[OF c] have "\<exists>lo. map pos (tips_of k) = [lo..<lo + length (tips_of k)]"
    by blast
  with assms show ?thesis unfolding ready_def by simp
qed

lemma ready_tail:
  assumes r: "ready n rm pos h ds res (k # ks)"
    and s: "solved n dl pos h ds res h1 ds1 res1 [k]"
  shows "ready n rm pos h1 ds1 res1 ks"
proof -
  from r obtain lo where
    c: "map pos (tips_of k @ concat (map tips_of ks)) =
        [lo..<lo + length (tips_of k @ concat (map tips_of ks))]"
    unfolding ready_def by auto
  have inj: "inj_on pos (set (tips_of k) \<union> set (concat (map tips_of ks)))"
    using ready_inj[OF r] by simp
  have d: "distinct (nodes_of k @ concat (map nodes_of ks))" using r unfolding ready_def by simp
  have same: "\<forall>x. Children (h1 x) = Children (h x) \<and> Parent (h1 x) = Parent (h x)"
    using s unfolding solved_def by simp
  have trees: "\<forall>k' \<in> set ks. tree_at h1 k'"
    using r tree_at_same[OF same] unfolding ready_def by simp
  have tips: "start_stop (h1 a) = Some (pos a, Suc (pos a)) \<and> pos a < n \<and> ds1 ! pos a = 0"
    if a: "a \<in> set (concat (map tips_of ks))" for a
  proof -
    from a obtain k' where k': "k' \<in> set ks" "a \<in> set (tips_of k')" by auto
    then have an: "a \<in> set (concat (map nodes_of ks))" using tips_subset_nodes by fastforce
    then have "a \<notin> set (nodes_of k)" using d by auto
    then have h1a: "h1 a = h a" using s unfolding solved_def by simp
    have at: "a \<notin> set (tips_of k)" using \<open>a \<notin> set (nodes_of k)\<close> tips_subset_nodes by blast
    have pre: "start_stop (h a) = Some (pos a, Suc (pos a)) \<and> pos a < n \<and> ds ! pos a = 0"
      using r a unfolding ready_def by simp
    have "pos a \<notin> pos ` set (tips_of k)"
    proof
      assume "pos a \<in> pos ` set (tips_of k)"
      then obtain b where b: "b \<in> set (tips_of k)" "pos b = pos a" by auto
      with inj a have "b = a" by (auto dest: inj_onD)
      with b at show False by simp
    qed
    then have "ds1 ! pos a = ds ! pos a" using s pre unfolding solved_def by simp
    with pre h1a show ?thesis by simp
  qed
  have "\<exists>lo. map pos (concat (map tips_of ks)) = [lo..<lo + length (concat (map tips_of ks))]"
    using contig_split(2)[OF c] by blast
  moreover have "length ds1 = n" "square n res1" using s unfolding solved_def by simp_all
  moreover have "\<forall>i<n. map_of rm i = Some i" using r unfolding ready_def by simp
  moreover have "distinct (concat (map nodes_of ks))" using d by simp
  ultimately show ?thesis using trees tips unfolding ready_def by blast
qed

lemma solvedD:
  assumes "solved n dl pos h ds res h' ds' res' ks"
  shows "length ds' = n" and "square n res'"
    and "\<And>x. x \<notin> set (concat (map nodes_of ks)) \<Longrightarrow> h' x = h x"
    and "\<And>x. Children (h' x) = Children (h x)"
    and "\<And>x. Length (h' x) = Length (h x)"
    and "\<And>x. Parent (h' x) = Parent (h x)"
    and "\<And>a. a \<in> set (concat (map tips_of ks)) \<Longrightarrow> start_stop (h' a) = start_stop (h a)"
    and "\<And>k. k \<in> set ks \<Longrightarrow> start_stop (h' (root k)) =
            Some (Min (pos ` set (tips_of k)), Suc (Max (pos ` set (tips_of k))))"
    and "\<And>k a. k \<in> set ks \<Longrightarrow> a \<in> set (tips_of k) \<Longrightarrow> ds' ! pos a = down_len h dl k a"
    and "\<And>i. i < n \<Longrightarrow> i \<notin> pos ` set (concat (map tips_of ks)) \<Longrightarrow> ds' ! i = ds ! i"
    and "\<And>k a b. k \<in> set ks \<Longrightarrow> a \<in> set (tips_of k) \<Longrightarrow> b \<in> set (tips_of k) \<Longrightarrow>
            pos a < pos b \<Longrightarrow> res' ! pos a ! pos b = path_len h dl k a b"
    and "\<And>i j. i < n \<Longrightarrow> j < n \<Longrightarrow>
            \<not> (\<exists>k \<in> set ks. i \<in> pos ` set (tips_of k) \<and> j \<in> pos ` set (tips_of k) \<and> i < j)
            \<Longrightarrow> res' ! i ! j = res ! i ! j"
  using assms unfolding solved_def by blast+

lemma readyD:
  assumes "ready n rm pos h ds res ks"
  shows "length ds = n" and "square n res" and "\<And>i. i < n \<Longrightarrow> map_of rm i = Some i"
    and "\<And>k. k \<in> set ks \<Longrightarrow> tree_at h k"
    and "distinct (concat (map nodes_of ks))"
    and "\<And>a. a \<in> set (concat (map tips_of ks)) \<Longrightarrow> start_stop (h a) = Some (pos a, Suc (pos a))"
    and "\<And>a. a \<in> set (concat (map tips_of ks)) \<Longrightarrow> pos a < n"
    and "\<And>a. a \<in> set (concat (map tips_of ks)) \<Longrightarrow> ds ! pos a = 0"
    and "\<exists>lo. map pos (concat (map tips_of ks)) = [lo..<lo + length (concat (map tips_of ks))]"
  using assms unfolding ready_def by blast+

lemma solved_combine:
  assumes r: "ready n rm pos h ds res (k # ks)"
    and s1: "solved n dl pos h ds res h1 ds1 res1 [k]"
    and s2: "solved n dl pos h1 ds1 res1 h2 ds2 res2 ks"
  shows "solved n dl pos h ds res h2 ds2 res2 (k # ks)"
proof -
  note a1 = solvedD[OF s1] and a2 = solvedD[OF s2]
  have inj: "inj_on pos (set (tips_of k) \<union> set (concat (map tips_of ks)))"
    using ready_inj[OF r] by simp
  have d: "distinct (nodes_of k @ concat (map nodes_of ks))" using readyD(5)[OF r] by simp
  have bound: "pos a < n" if "a \<in> set (tips_of k) \<union> set (concat (map tips_of ks))" for a
    using readyD(7)[OF r, of a] that by simp
  have len1: "\<forall>x. Length (h1 x) = Length (h x)" using a1(5) by simp
  have tk: "\<And>a. a \<in> set (tips_of k) \<Longrightarrow> a \<in> set (nodes_of k)"
    using tips_subset_nodes by blast
  have tks: "\<And>a. a \<in> set (concat (map tips_of ks)) \<Longrightarrow> a \<in> set (concat (map nodes_of ks))"
    using tips_subset_nodes by fastforce
  have apart: "pos a \<noteq> pos b"
    if "a \<in> set (tips_of k)" "b \<in> set (concat (map tips_of ks))" for a b
  proof
    assume "pos a = pos b"
    with inj that have "a = b" by (auto dest: inj_onD)
    with that tk tks d show False by auto
  qed
  have in1: "a \<in> set (concat (map tips_of [k]))" if "a \<in> set (tips_of k)" for a
    using that by simp
  have c3: "\<forall>x. x \<notin> set (concat (map nodes_of (k # ks))) \<longrightarrow> h2 x = h x"
  proof (intro allI impI)
    fix x assume "x \<notin> set (concat (map nodes_of (k # ks)))"
    then have "x \<notin> set (concat (map nodes_of ks))" "x \<notin> set (concat (map nodes_of [k]))"
      by simp_all
    then show "h2 x = h x" using a1(3) a2(3) by simp
  qed
  have c4: "\<forall>x. Children (h2 x) = Children (h x) \<and> Length (h2 x) = Length (h x)
               \<and> Parent (h2 x) = Parent (h x)"
    using a1(4,5,6) a2(4,5,6) by simp
  have c5: "\<forall>a \<in> set (concat (map tips_of (k # ks))). start_stop (h2 a) = start_stop (h a)"
  proof
    fix a assume a: "a \<in> set (concat (map tips_of (k # ks)))"
    show "start_stop (h2 a) = start_stop (h a)"
    proof (cases "a \<in> set (tips_of k)")
      case True
      then have "a \<notin> set (concat (map nodes_of ks))" using tk d by auto
      then have "h2 a = h1 a" by (rule a2(3))
      moreover have "start_stop (h1 a) = start_stop (h a)" by (rule a1(7)[OF in1[OF True]])
      ultimately show ?thesis by simp
    next
      case False
      with a have a': "a \<in> set (concat (map tips_of ks))" by simp
      then have "a \<notin> set (nodes_of k)" using tks d by auto
      then have "a \<notin> set (concat (map nodes_of [k]))" by simp
      then have "h1 a = h a" by (rule a1(3))
      moreover have "start_stop (h2 a) = start_stop (h1 a)" by (rule a2(7)[OF a'])
      ultimately show ?thesis by simp
    qed
  qed
  have c6: "\<forall>k' \<in> set (k # ks). start_stop (h2 (root k')) =
            Some (Min (pos ` set (tips_of k')), Suc (Max (pos ` set (tips_of k'))))"
  proof
    fix k' assume k': "k' \<in> set (k # ks)"
    show "start_stop (h2 (root k')) =
            Some (Min (pos ` set (tips_of k')), Suc (Max (pos ` set (tips_of k'))))"
    proof (cases "k' = k")
      case True
      have "root k \<notin> set (concat (map nodes_of ks))" using root_in_nodes[of k] d by auto
      then have "h2 (root k) = h1 (root k)" by (rule a2(3))
      with a1(8)[of k] True show ?thesis by simp
    next
      case False
      with k' have "k' \<in> set ks" by simp
      then show ?thesis by (rule a2(8))
    qed
  qed
  have c7: "\<forall>k' \<in> set (k # ks). \<forall>a \<in> set (tips_of k'). ds2 ! pos a = down_len h dl k' a"
  proof (intro ballI)
    fix k' a assume k': "k' \<in> set (k # ks)" and a: "a \<in> set (tips_of k')"
    show "ds2 ! pos a = down_len h dl k' a"
    proof (cases "k' = k")
      case True
      have "pos a \<notin> pos ` set (concat (map tips_of ks))" using apart a True by auto
      moreover have "pos a < n" using bound a True by simp
      ultimately have "ds2 ! pos a = ds1 ! pos a" using a2(10) by simp
      with a1(9)[of k a] a True show ?thesis by simp
    next
      case False
      with k' have "k' \<in> set ks" by simp
      then have "ds2 ! pos a = down_len h1 dl k' a" using a by (rule a2(9))
      with down_len_same[OF len1] show ?thesis by simp
    qed
  qed
  have c8: "\<forall>i<n. i \<notin> pos ` set (concat (map tips_of (k # ks))) \<longrightarrow> ds2 ! i = ds ! i"
  proof (intro allI impI)
    fix i assume i: "i < n" and ni: "i \<notin> pos ` set (concat (map tips_of (k # ks)))"
    from ni have n2: "i \<notin> pos ` set (concat (map tips_of ks))"
      and n1: "i \<notin> pos ` set (concat (map tips_of [k]))" by auto
    have "ds2 ! i = ds1 ! i" by (rule a2(10)[OF i n2])
    moreover have "ds1 ! i = ds ! i" by (rule a1(10)[OF i n1])
    ultimately show "ds2 ! i = ds ! i" by simp
  qed
  have c9: "\<forall>k' \<in> set (k # ks). \<forall>a \<in> set (tips_of k'). \<forall>b \<in> set (tips_of k').
            pos a < pos b \<longrightarrow> res2 ! pos a ! pos b = path_len h dl k' a b"
  proof (intro ballI impI)
    fix k' a b assume k': "k' \<in> set (k # ks)" and a: "a \<in> set (tips_of k')"
      and b: "b \<in> set (tips_of k')" and ab: "pos a < pos b"
    show "res2 ! pos a ! pos b = path_len h dl k' a b"
    proof (cases "k' = k")
      case True
      have no: "\<not> (\<exists>k'' \<in> set ks. pos a \<in> pos ` set (tips_of k'') \<and> pos b \<in> pos ` set (tips_of k'')
                 \<and> pos a < pos b)"
        using apart[of a] a True by force
      have "pos a < n" "pos b < n" using bound a b True by simp_all
      then have "res2 ! pos a ! pos b = res1 ! pos a ! pos b"
        using no by (rule a2(12))
      with a1(11)[of k a b] a b ab True show ?thesis by simp
    next
      case False
      with k' have "k' \<in> set ks" by simp
      then have "res2 ! pos a ! pos b = path_len h1 dl k' a b"
        using a b ab by (rule a2(11))
      with path_len_same_heap[OF len1] show ?thesis by simp
    qed
  qed
  have c10: "\<forall>i<n. \<forall>j<n.
            \<not> (\<exists>k' \<in> set (k # ks). i \<in> pos ` set (tips_of k') \<and> j \<in> pos ` set (tips_of k') \<and> i < j)
            \<longrightarrow> res2 ! i ! j = res ! i ! j"
  proof (intro allI impI)
    fix i j assume i: "i < n" and j: "j < n"
      and no: "\<not> (\<exists>k' \<in> set (k # ks). i \<in> pos ` set (tips_of k') \<and> j \<in> pos ` set (tips_of k') \<and> i < j)"
    from no have no2: "\<not> (\<exists>k' \<in> set ks. i \<in> pos ` set (tips_of k') \<and> j \<in> pos ` set (tips_of k') \<and> i < j)"
      and no1: "\<not> (\<exists>k' \<in> set [k]. i \<in> pos ` set (tips_of k') \<and> j \<in> pos ` set (tips_of k') \<and> i < j)"
      by simp_all
    have "res2 ! i ! j = res1 ! i ! j" by (rule a2(12)[OF i j no2])
    moreover have "res1 ! i ! j = res ! i ! j" by (rule a1(12)[OF i j no1])
    ultimately show "res2 ! i ! j = res ! i ! j" by simp
  qed
  show ?thesis unfolding solved_def using a2(1,2) c3 c4 c5 c6 c7 c8 c9 c10 by blast
qed

lemma combinations2_map:
  "combinations2 (map f xs) = map (\<lambda>(a, b). (f a, f b)) (combinations2 xs)"
  by (induction xs) (simp_all add: comp_def)

lemma combinations2_mem:
  "(x, y) \<in> set (combinations2 xs) \<Longrightarrow> x \<in> set xs \<and> y \<in> set xs"
  by (induction xs) auto

lemma combinations2_total:
  "x \<in> set xs \<Longrightarrow> y \<in> set xs \<Longrightarrow> x \<noteq> y \<Longrightarrow>
   (x, y) \<in> set (combinations2 xs) \<or> (y, x) \<in> set (combinations2 xs)"
  by (induction xs) auto

lemma combinations2_order:
  "sorted_wrt (<) (map pos (concat (map tips_of ks))) \<Longrightarrow>
   (k1, k2) \<in> set (combinations2 ks) \<Longrightarrow> a \<in> set (tips_of k1) \<Longrightarrow> b \<in> set (tips_of k2) \<Longrightarrow>
   pos a < (pos b :: nat)"
proof (induction ks)
  case Nil
  then show ?case by simp
next
  case (Cons k ks)
  from Cons.prems(1) have s2: "sorted_wrt (<) (map pos (concat (map tips_of ks)))"
    and cross: "\<forall>x \<in> set (tips_of k). \<forall>y \<in> set (concat (map tips_of ks)). pos x < pos y"
    by (auto simp: sorted_wrt_append)
  show ?case
  proof (cases "(k1, k2) \<in> set (combinations2 ks)")
    case True
    from Cons.IH[OF s2 True Cons.prems(3,4)] show ?thesis .
  next
    case False
    with Cons.prems(2) have "k1 = k" "k2 \<in> set ks" by auto
    with cross Cons.prems(3,4) show ?thesis by auto
  qed
qed

lemma distinct_roots: "distinct (concat (map nodes_of ks)) \<Longrightarrow> distinct (map root ks)"
proof (induction ks)
  case Nil
  then show ?case by simp
next
  case (Cons k ks)
  have "root k \<notin> root ` set ks"
  proof
    assume "root k \<in> root ` set ks"
    then obtain k' where "k' \<in> set ks" "root k' = root k" by auto
    then have "root k \<in> set (concat (map nodes_of ks))" using root_in_nodes[of k'] by auto
    with Cons.prems root_in_nodes[of k] show False by auto
  qed
  with Cons show ?case by simp
qed

lemma tips_of_inner: "ks \<noteq> [] \<Longrightarrow> tips_of (Node m ks) = concat (map tips_of ks)"
  by simp

lemma solved_node:
  assumes r: "ready n rm pos h ds res [Node m ks]" and ne: "ks \<noteq> []"
    and s: "solved n dl pos h ds res h1 ds1 res1 ks"
  shows "\<exists>h2 ds2 res2. distances_node rm dl h1 ds1 res1 m = (h2, Inr (ds2, res2))
           \<and> solved n dl pos h ds res h2 ds2 res2 [Node m ks]"
proof -
  note a = solvedD[OF s]
  let ?T = "concat (map tips_of ks)"
  let ?A = "pos ` set ?T"
  let ?P = "\<lambda>k. pos ` set (tips_of k)"
  have tt: "tips_of (Node m ks) = ?T" using ne by simp
  have ta: "tree_at h (Node m ks)" using readyD(4)[OF r] by simp
  have ch1: "Children (h1 m) = map root ks" using ta a(4) by simp
  have d: "distinct (m # concat (map nodes_of ks))" using readyD(5)[OF r] by simp
  have dks: "distinct (concat (map nodes_of ks))" using d by simp
  obtain lo where contig: "map pos ?T = [lo..<lo + length ?T]"
    using readyD(9)[OF r] tt by auto
  have inj: "inj_on pos (set ?T)" by (rule contig_inj(1)[OF contig])
  have sorted: "sorted_wrt (<) (map pos ?T)" unfolding contig by simp
  have bound: "pos x < n" if "x \<in> set ?T" for x using readyD(7)[OF r, of x] that tt by simp
  have tipk: "x \<in> set ?T" if "k \<in> set ks" "x \<in> set (tips_of k)" for k x using that by auto
  have PA: "?P k \<subseteq> ?A" if "k \<in> set ks" for k using that by auto
  have len1: "\<forall>x. Length (h1 x) = Length (h x)" using a(5) by simp
  have own: "k = k'" if "k \<in> set ks" "k' \<in> set ks" "x \<in> set (tips_of k)" "pos x \<in> ?P k'" for k k' x
  proof -
    from that(4) obtain y where y: "y \<in> set (tips_of k')" "pos y = pos x" by auto
    have "y = x" using inj y tipk[OF that(2) y(1)] tipk[OF that(1,3)] by (auto dest: inj_onD)
    with y have "x \<in> set (tips_of k')" by simp
    from nodes_disjoint_tips[OF dks that(1,2,3) this] show ?thesis .
  qed
  have block: "start_stop (h1 (root k)) \<noteq> None \<and> slice h1 (root k) = ?P k" if kin: "k \<in> set ks" for k
  proof -
    obtain l where l: "map pos (tips_of k) = [l..<l + length (tips_of k)]"
      using contig_kid[OF contig kin] by blast
    note ci = contig_image[OF l tips_of_nonempty]
    have "start_stop (h1 (root k)) = Some (l, l + length (tips_of k))"
      using a(8)[OF kin] ci(2,3) by simp
    then show ?thesis using ci(1) by (simp add: slice_def)
  qed
  have PAn: "?P k \<subseteq> {..<n}" if "k \<in> set ks" for k using that bound by auto
  have all_some: "\<forall>c \<in> set (map root ks). start_stop (h1 c) \<noteq> None" using block by auto
  obtain ds2 where
    ac: "add_children h1 dl ds1 [] [] (map root ks) =
           Inr (ds2, [] @ map (\<lambda>c. fst (the (start_stop (h1 c)))) (map root ks),
                [] @ map (\<lambda>c. snd (the (start_stop (h1 c)))) (map root ks))"
    and l2: "length ds2 = length ds1"
    and v2: "\<forall>i < length ds1. ds2 ! i =
           ds1 ! i + sum_list (map (\<lambda>c. if i \<in> slice h1 c then branch_len h1 dl c else 0) (map root ks))"
    using add_children_spec[OF all_some, of dl ds1 "[]" "[]"] by blast
  let ?starts = "map (\<lambda>c. fst (the (start_stop (h1 c)))) (map root ks)"
  let ?stops = "map (\<lambda>c. snd (the (start_stop (h1 c)))) (map root ks)"
  have st: "?starts = map (\<lambda>k. Min (?P k)) ks" and sp: "?stops = map (\<lambda>k. Suc (Max (?P k))) ks"
    using a(8) by (simp_all add: comp_def)
  have n2: "length ds2 = n" using l2 a(1) by simp
  have dr: "distinct (map root ks)" by (rule distinct_roots[OF dks])
  have d2a: "ds2 ! pos x = down_len h dl (Node m ks) x" if k: "k \<in> set ks" and x: "x \<in> set (tips_of k)" for k x
  proof -
    let ?f = "\<lambda>c. if pos x \<in> slice h1 c then branch_len h1 dl c else 0"
    have px: "pos x < length ds1" using bound[OF tipk[OF k x]] a(1) by simp
    have zero: "\<forall>c \<in> set (map root ks). c \<noteq> root k \<longrightarrow> ?f c = 0"
    proof (intro ballI impI)
      fix c assume c: "c \<in> set (map root ks)" and cn: "c \<noteq> root k"
      then obtain k' where k': "k' \<in> set ks" "c = root k'" by auto
      have "pos x \<notin> ?P k'"
      proof
        assume "pos x \<in> ?P k'"
        from own[OF k k'(1) x this] k'(2) cn show False by simp
      qed
      then show "?f c = 0" using block[OF k'(1)] k'(2) by simp
    qed
    have "sum_list (map ?f (map root ks)) = ?f (root k)"
      by (rule sum_list_single[OF dr _ zero]) (use k in simp)
    also have "\<dots> = branch_len h1 dl (root k)" using block[OF k] x by simp
    finally have "ds2 ! pos x = ds1 ! pos x + branch_len h1 dl (root k)"
      using v2 px by simp
    also have "ds1 ! pos x = down_len h dl k x" by (rule a(9)[OF k x])
    also have "branch_len h1 dl (root k) = branch_len h dl (root k)"
      using branch_len_same[OF len1] by simp
    finally show ?thesis
      using down_len_kid[OF _ k, of m x h dl] d tips_subset_nodes[of k] x by auto
  qed
  have d2b: "ds2 ! i = ds ! i" if i: "i < n" and ni: "i \<notin> ?A" for i
  proof -
    have "\<forall>c \<in> set (map root ks). (if i \<in> slice h1 c then branch_len h1 dl c else 0) = 0"
      using block ni by auto
    then have "sum_list (map (\<lambda>c. if i \<in> slice h1 c then branch_len h1 dl c else 0) (map root ks)) = 0"
      by (rule sum_list_zero)
    then have "ds2 ! i = ds1 ! i" using v2 i a(1) by simp
    with a(10)[OF i ni] show ?thesis by simp
  qed
  have fin: "finite ?A" by simp
  have Ane: "?A \<noteq> {}" using ne tips_of_nonempty by (cases ks) auto
  have Pne: "?P k \<noteq> {}" for k using tips_of_nonempty[of k] by simp
  have mn: "list_min ?starts = Min ?A"
  proof -
    have sne: "?starts \<noteq> []" using ne by simp
    let ?x = "Min (set ?starts)"
    have "?x \<in> set ?starts" using sne by (intro Min_in) auto
    then obtain k where k: "k \<in> set ks" "?x = Min (?P k)" unfolding st by auto
    have "Min (?P k) \<in> ?P k" using Pne by (intro Min_in) auto
    then have xin: "?x \<in> ?A" using k PA by auto
    have "?x \<le> y" if "y \<in> ?A" for y
    proof -
      from that obtain k' where k': "k' \<in> set ks" "y \<in> ?P k'" by auto
      have "Min (?P k') \<in> set ?starts" unfolding st using k'(1) by auto
      then have "?x \<le> Min (?P k')" by (intro Min_le) auto
      also have "\<dots> \<le> y" using k'(2) by (intro Min_le) auto
      finally show ?thesis .
    qed
    then have "Min ?A = ?x" using xin by (intro Min_eqI) auto
    then show ?thesis using list_min_Min[OF sne] by simp
  qed
  have mx: "list_max ?stops = Suc (Max ?A)"
  proof -
    have sne: "?stops \<noteq> []" using ne by simp
    have "Max ?A \<in> ?A" using Ane by (intro Max_in) auto
    then obtain k where k: "k \<in> set ks" "Max ?A \<in> ?P k" by auto
    have "Max (?P k) \<in> ?P k" using Pne by (intro Max_in) auto
    then have "Max (?P k) \<le> Max ?A" using PA[OF k(1)] by (intro Max_ge) auto
    moreover have "Max ?A \<le> Max (?P k)" using k(2) by (intro Max_ge) auto
    ultimately have "Suc (Max ?A) \<in> set ?stops" unfolding sp using k(1) by force
    moreover have "y \<le> Suc (Max ?A)" if "y \<in> set ?stops" for y
    proof -
      from that obtain k' where k': "k' \<in> set ks" "y = Suc (Max (?P k'))" unfolding sp by auto
      have "Max (?P k') \<in> ?P k'" using Pne by (intro Max_in) auto
      then have "Max (?P k') \<le> Max ?A" using PA[OF k'(1)] by (intro Max_ge) auto
      with k'(2) show ?thesis by simp
    qed
    ultimately have "Max (set ?stops) = Suc (Max ?A)" by (intro Max_eqI) auto
    then show ?thesis using list_max_Max[OF sne] by simp
  qed
  define h2 where "h2 = h1(m := (h1 m)\<lparr>start_stop := Some (list_min ?starts, list_max ?stops)\<rparr>)"
  have h2m: "start_stop (h2 m) = Some (Min ?A, Suc (Max ?A))" unfolding h2_def using mn mx by simp
  have h2o: "h2 x = h1 x" if "x \<noteq> m" for x unfolding h2_def using that by simp
  have h2f: "Children (h2 x) = Children (h1 x) \<and> Length (h2 x) = Length (h1 x)
               \<and> Parent (h2 x) = Parent (h1 x)" for x
    unfolding h2_def by simp
  have rootm: "root k \<noteq> m" if "k \<in> set ks" for k
    using d that root_in_nodes[of k] by auto
  have cross_spec: "\<exists>res2. (if length (Children (h2 m)) > 1
        then (case update_result h2 rm ds2 res1 m of
                Inl e \<Rightarrow> (h2, Inl e) | Inr result1 \<Rightarrow> (h2, Inr (ds2, result1)))
        else (h2, Inr (ds2, res1))) = (h2, Inr (ds2, res2))
      \<and> square n res2
      \<and> (\<forall>i<n. \<forall>j<n. res2 ! i ! j =
            (if \<exists>(k1, k2) \<in> set (combinations2 ks). i \<in> ?P k1 \<and> j \<in> ?P k2
             then ds2 ! i + ds2 ! j else res1 ! i ! j))"
  proof (cases "length (Children (h2 m)) > 1")
    case False
    then have "length ks \<le> 1" using h2f[of m] ch1 by simp
    with ne obtain k where "ks = [k]" by (cases ks) auto
    then show ?thesis using False a(2) by simp
  next
    case True
    have pre: "\<forall>(c1, c2) \<in> set (combinations2 (map root ks)).
        start_stop (h2 c1) \<noteq> None \<and> start_stop (h2 c2) \<noteq> None
        \<and> slice h2 c1 \<subseteq> {..<n} \<and> slice h2 c2 \<subseteq> {..<n}"
    proof (intro ballI, clarify)
      fix c1 c2 assume "(c1, c2) \<in> set (combinations2 (map root ks))"
      from combinations2_mem[OF this] obtain k1 k2 where
        k: "k1 \<in> set ks" "c1 = root k1" "k2 \<in> set ks" "c2 = root k2" by auto
      have "h2 c1 = h1 c1" "h2 c2 = h1 c2" using k rootm h2o by simp_all
      then show "start_stop (h2 c1) \<noteq> None \<and> start_stop (h2 c2) \<noteq> None
        \<and> slice h2 c1 \<subseteq> {..<n} \<and> slice h2 c2 \<subseteq> {..<n}"
        using block[OF k(1)] block[OF k(3)] PAn[OF k(1)] PAn[OF k(3)] k(2,4)
        by (simp add: slice_def)
    qed
    have rmid: "\<forall>i<n. map_of rm i = Some i" using readyD(3)[OF r] by simp
    from update_pairs_spec[OF n2 rmid a(2) pre] obtain res2 where
      up: "update_pairs h2 rm ds2 res1 (combinations2 (map root ks)) = Inr res2"
      and sq2: "square n res2"
      and v: "\<forall>i<n. \<forall>j<n. res2 ! i ! j =
                 (if \<exists>(c1, c2) \<in> set (combinations2 (map root ks)). i \<in> slice h2 c1 \<and> j \<in> slice h2 c2
                  then ds2 ! i + ds2 ! j else res1 ! i ! j)"
      by blast
    have eqv: "(\<exists>(c1, c2) \<in> set (combinations2 (map root ks)). i \<in> slice h2 c1 \<and> j \<in> slice h2 c2)
        = (\<exists>(k1, k2) \<in> set (combinations2 ks). i \<in> ?P k1 \<and> j \<in> ?P k2)" for i j
    proof -
      have sl: "slice h2 (root k) = ?P k" if "k \<in> set ks" for k
        using block[OF that] h2o[OF rootm[OF that]] by (simp add: slice_def)
      show ?thesis
      proof
        assume "\<exists>(c1, c2) \<in> set (combinations2 (map root ks)). i \<in> slice h2 c1 \<and> j \<in> slice h2 c2"
        then obtain c1 c2 where c: "(c1, c2) \<in> set (combinations2 (map root ks))"
          "i \<in> slice h2 c1" "j \<in> slice h2 c2" by auto
        from c(1) obtain k1 k2 where k: "(k1, k2) \<in> set (combinations2 ks)"
          "c1 = root k1" "c2 = root k2"
          unfolding combinations2_map by auto
        from combinations2_mem[OF k(1)] have "k1 \<in> set ks" "k2 \<in> set ks" by simp_all
        with c(2,3) k(2,3) sl have "i \<in> ?P k1 \<and> j \<in> ?P k2" by simp
        with k(1) show "\<exists>(k1, k2) \<in> set (combinations2 ks). i \<in> ?P k1 \<and> j \<in> ?P k2" by auto
      next
        assume "\<exists>(k1, k2) \<in> set (combinations2 ks). i \<in> ?P k1 \<and> j \<in> ?P k2"
        then obtain k1 k2 where k: "(k1, k2) \<in> set (combinations2 ks)"
          "i \<in> ?P k1" "j \<in> ?P k2" by auto
        from combinations2_mem[OF k(1)] have "k1 \<in> set ks" "k2 \<in> set ks" by simp_all
        with k(2,3) sl have "i \<in> slice h2 (root k1) \<and> j \<in> slice h2 (root k2)" by simp
        moreover have "(root k1, root k2) \<in> set (combinations2 (map root ks))"
          unfolding combinations2_map using k(1) by force
        ultimately show "\<exists>(c1, c2) \<in> set (combinations2 (map root ks)).
            i \<in> slice h2 c1 \<and> j \<in> slice h2 c2" by blast
      qed
    qed
    have "update_result h2 rm ds2 res1 m = Inr res2"
      using up h2f[of m] ch1 by (simp add: update_result_def)
    with True sq2 v show ?thesis unfolding eqv by simp
  qed
  then obtain res2 where
    run: "(if length (Children (h2 m)) > 1
        then (case update_result h2 rm ds2 res1 m of
                Inl e \<Rightarrow> (h2, Inl e) | Inr result1 \<Rightarrow> (h2, Inr (ds2, result1)))
        else (h2, Inr (ds2, res1))) = (h2, Inr (ds2, res2))"
    and sq2: "square n res2"
    and v: "\<And>i j. i < n \<Longrightarrow> j < n \<Longrightarrow> res2 ! i ! j =
            (if \<exists>(k1, k2) \<in> set (combinations2 ks). i \<in> ?P k1 \<and> j \<in> ?P k2
             then ds2 ! i + ds2 ! j else res1 ! i ! j)"
    by blast
  have cne: "Children (h1 m) \<noteq> []" using ne ch1 by simp
  have ac': "add_children h1 dl ds1 [] [] (Children (h1 m)) = Inr (ds2, ?starts, ?stops)"
    using ac ch1 by simp
  have "distances_node rm dl h1 ds1 res1 m =
      (if length (Children (h2 m)) > 1
        then (case update_result h2 rm ds2 res1 m of
                Inl e \<Rightarrow> (h2, Inl e) | Inr result1 \<Rightarrow> (h2, Inr (ds2, result1)))
        else (h2, Inr (ds2, res1)))"
    unfolding distances_node_def ac'
    by (simp only: cne if_False sum.case prod.case Let_def h2_def[symmetric])
  then have node: "distances_node rm dl h1 ds1 res1 m = (h2, Inr (ds2, res2))"
    unfolding run .
  have cross_lt: "i < j \<and> i \<in> ?A \<and> j \<in> ?A"
    if "\<exists>(k1, k2) \<in> set (combinations2 ks). i \<in> ?P k1 \<and> j \<in> ?P k2" for i j
  proof -
    from that obtain k1 k2 x y where
      k: "(k1, k2) \<in> set (combinations2 ks)" "x \<in> set (tips_of k1)" "i = pos x"
         "y \<in> set (tips_of k2)" "j = pos y" by auto
    from combinations2_order[OF sorted k(1,2,4)] combinations2_mem[OF k(1)] k(2-5)
    show ?thesis by auto
  qed
  have c3: "\<forall>x. x \<notin> set (concat (map nodes_of [Node m ks])) \<longrightarrow> h2 x = h x"
    using h2o a(3) by auto
  have c4: "\<forall>x. Children (h2 x) = Children (h x) \<and> Length (h2 x) = Length (h x)
               \<and> Parent (h2 x) = Parent (h x)"
    using h2f a(4,5,6) by simp
  have c5: "\<forall>x \<in> set (concat (map tips_of [Node m ks])). start_stop (h2 x) = start_stop (h x)"
  proof
    fix x assume "x \<in> set (concat (map tips_of [Node m ks]))"
    then have x: "x \<in> set ?T" using tt by simp
    then have "x \<in> set (concat (map nodes_of ks))" using tips_subset_nodes by fastforce
    then have "x \<noteq> m" using d by auto
    with h2o a(7)[OF x] show "start_stop (h2 x) = start_stop (h x)" by simp
  qed
  have c6: "\<forall>k \<in> set [Node m ks]. start_stop (h2 (root k)) =
            Some (Min (pos ` set (tips_of k)), Suc (Max (pos ` set (tips_of k))))"
    using h2m tt by simp
  have c7: "\<forall>k \<in> set [Node m ks]. \<forall>x \<in> set (tips_of k). ds2 ! pos x = down_len h dl k x"
    using d2a tt by auto
  have c8: "\<forall>i<n. i \<notin> pos ` set (concat (map tips_of [Node m ks])) \<longrightarrow> ds2 ! i = ds ! i"
    using d2b tt by simp
  have c9: "\<forall>k \<in> set [Node m ks]. \<forall>x \<in> set (tips_of k). \<forall>y \<in> set (tips_of k).
            pos x < pos y \<longrightarrow> res2 ! pos x ! pos y = path_len h dl k x y"
  proof (intro ballI impI)
    fix k x y assume "k \<in> set [Node m ks]" and "x \<in> set (tips_of k)" and "y \<in> set (tips_of k)"
      and xy: "pos x < pos y"
    then have kk: "k = Node m ks" and x: "x \<in> set ?T" and y: "y \<in> set ?T" using tt by simp_all
    from x obtain kx where kx: "kx \<in> set ks" "x \<in> set (tips_of kx)" by auto
    from y obtain ky where ky: "ky \<in> set ks" "y \<in> set (tips_of ky)" by auto
    have xn: "x \<in> set (nodes_of kx)" and yn: "y \<in> set (nodes_of ky)"
      using kx ky tips_subset_nodes by blast+
    have bx: "pos x < n" and by': "pos y < n" using bound x y by simp_all
    have dt: "distinct (nodes_of (Node m ks))" using d by simp
    show "res2 ! pos x ! pos y = path_len h dl k x y"
    proof (cases "kx = ky")
      case True
      have no: "\<not> (\<exists>(k1, k2) \<in> set (combinations2 ks). pos x \<in> ?P k1 \<and> pos y \<in> ?P k2)"
      proof
        assume "\<exists>(k1, k2) \<in> set (combinations2 ks). pos x \<in> ?P k1 \<and> pos y \<in> ?P k2"
        then obtain k1 k2 where
          k12: "(k1, k2) \<in> set (combinations2 ks)" "pos x \<in> ?P k1" "pos y \<in> ?P k2" by auto
        from combinations2_mem[OF k12(1)] have m12: "k1 \<in> set ks" "k2 \<in> set ks" by simp_all
        have "kx = k1" by (rule own[OF kx(1) m12(1) kx(2) k12(2)])
        moreover have "ky = k2" by (rule own[OF ky(1) m12(2) ky(2) k12(3)])
        ultimately have "(kx, kx) \<in> set (combinations2 ks)" using True k12(1) by simp
        from combinations2_order[OF sorted this kx(2) kx(2)] show False by simp
      qed
      then have "res2 ! pos x ! pos y = res1 ! pos x ! pos y" using v[OF bx by'] by simp
      also have "\<dots> = path_len h dl kx x y"
        using a(11)[OF kx(1) kx(2) _ xy] ky(2) True by simp
      also have "\<dots> = path_len h dl (Node m ks) x y"
        using path_len_same[OF dt kx(1) xn, of y h dl] yn True by simp
      finally show ?thesis using kk by simp
    next
      case False
      have "(kx, ky) \<in> set (combinations2 ks)"
      proof (rule ccontr)
        assume "(kx, ky) \<notin> set (combinations2 ks)"
        with combinations2_total[OF kx(1) ky(1) False]
        have "(ky, kx) \<in> set (combinations2 ks)" by simp
        from combinations2_order[OF sorted this ky(2) kx(2)] xy show False by simp
      qed
      then have "\<exists>(k1, k2) \<in> set (combinations2 ks). pos x \<in> ?P k1 \<and> pos y \<in> ?P k2"
        using kx(2) ky(2) by auto
      then have "res2 ! pos x ! pos y = ds2 ! pos x + ds2 ! pos y" using v[OF bx by'] by simp
      also have "\<dots> = down_len h dl (Node m ks) x + down_len h dl (Node m ks) y"
        using d2a[OF kx] d2a[OF ky] by simp
      also have "\<dots> = path_len h dl (Node m ks) x y"
        using path_len_diff[OF dt kx(1) ky(1) xn yn False, of h dl] by simp
      finally show ?thesis using kk by simp
    qed
  qed
  have c10: "\<forall>i<n. \<forall>j<n.
            \<not> (\<exists>k \<in> set [Node m ks]. i \<in> pos ` set (tips_of k) \<and> j \<in> pos ` set (tips_of k) \<and> i < j)
            \<longrightarrow> res2 ! i ! j = res ! i ! j"
  proof (intro allI impI)
    fix i j assume i: "i < n" and j: "j < n"
      and no: "\<not> (\<exists>k \<in> set [Node m ks]. i \<in> pos ` set (tips_of k) \<and> j \<in> pos ` set (tips_of k) \<and> i < j)"
    then have no': "\<not> (i \<in> ?A \<and> j \<in> ?A \<and> i < j)" using tt by simp
    then have "\<not> (\<exists>(k1, k2) \<in> set (combinations2 ks). i \<in> ?P k1 \<and> j \<in> ?P k2)"
      using cross_lt[of i j] by blast
    then have "res2 ! i ! j = res1 ! i ! j" using v[OF i j] by simp
    moreover have "\<not> (\<exists>k \<in> set ks. i \<in> ?P k \<and> j \<in> ?P k \<and> i < j)"
      using no' PA by blast
    then have "res1 ! i ! j = res ! i ! j" by (rule a(12)[OF i j])
    ultimately show "res2 ! i ! j = res ! i ! j" by simp
  qed
  have "solved n dl pos h ds res h2 ds2 res2 [Node m ks]"
    unfolding solved_def using n2 sq2 c3 c4 c5 c6 c7 c8 c9 c10 by blast
  with node show ?thesis by blast
qed

lemma solved_nil:
  assumes "ready n rm pos h ds res ks"
  shows "solved n dl pos h ds res h ds res []"
  using readyD(1,2)[OF assms] unfolding solved_def by simp

lemma solved_tip:
  assumes r: "ready n rm pos h ds res [Node m []]"
  shows "distances_nodes rm dl h ds res (postorder_rec (Node m [])) = (h, Inr (ds, res))
         \<and> solved n dl pos h ds res h ds res [Node m []]"
proof -
  have "tree_at h (Node m [])" using readyD(4)[OF r] by simp
  then have ch: "Children (h m) = []" by simp
  have run: "distances_nodes rm dl h ds res (postorder_rec (Node m [])) = (h, Inr (ds, res))"
    using ch by (simp add: distances_node_def)
  have ss: "start_stop (h m) = Some (pos m, Suc (pos m))" using readyD(6)[OF r, of m] by simp
  have z: "ds ! pos m = 0" using readyD(8)[OF r, of m] by simp
  have dl0: "down_len h dl (Node m []) m = 0" using down_len_root[of h dl "Node m []"] by simp
  have "solved n dl pos h ds res h ds res [Node m []]"
    unfolding solved_def using readyD(1,2)[OF r] ss z dl0 by simp
  with run show ?thesis by simp
qed

lemma ready_kids:
  assumes r: "ready n rm pos h ds res [Node m ks]" and ne: "ks \<noteq> []"
  shows "ready n rm pos h ds res ks"
proof -
  have tt: "tips_of (Node m ks) = concat (map tips_of ks)" using ne by simp
  have ta: "tree_at h (Node m ks)" using readyD(4)[OF r] by simp
  have c1: "\<forall>k \<in> set ks. tree_at h k" using ta by simp
  have c2: "distinct (concat (map nodes_of ks))" using readyD(5)[OF r] by simp
  have c3: "\<forall>a \<in> set (concat (map tips_of ks)).
        start_stop (h a) = Some (pos a, Suc (pos a)) \<and> pos a < n \<and> ds ! pos a = 0"
    using readyD(6,7,8)[OF r] tt by simp
  have c4: "\<exists>lo. map pos (concat (map tips_of ks)) = [lo..<lo + length (concat (map tips_of ks))]"
    using readyD(9)[OF r] tt by simp
  show ?thesis
    unfolding ready_def using readyD(1,2)[OF r] readyD(3)[OF r] c1 c2 c3 c4 by blast
qed

lemma solved_forest:
  assumes IH: "\<And>k h ds res. k \<in> set ks \<Longrightarrow> ready n rm pos h ds res [k] \<Longrightarrow>
      \<exists>h' ds' res'. distances_nodes rm dl h ds res (postorder_rec k) = (h', Inr (ds', res'))
         \<and> solved n dl pos h ds res h' ds' res' [k]"
  shows "ready n rm pos h ds res ks \<Longrightarrow>
      \<exists>h' ds' res'. distances_nodes rm dl h ds res (concat (map postorder_rec ks)) = (h', Inr (ds', res'))
         \<and> solved n dl pos h ds res h' ds' res' ks"
  using IH
proof (induction ks arbitrary: h ds res)
  case Nil
  from solved_nil[OF Nil.prems(1)] show ?case by simp
next
  case (Cons k ks)
  have rk: "ready n rm pos h ds res [k]" by (rule ready_head[OF Cons.prems(1)])
  from Cons.prems(2)[OF _ rk] obtain h1 ds1 res1 where
    run1: "distances_nodes rm dl h ds res (postorder_rec k) = (h1, Inr (ds1, res1))"
    and s1: "solved n dl pos h ds res h1 ds1 res1 [k]" by auto
  have rks: "ready n rm pos h1 ds1 res1 ks" by (rule ready_tail[OF Cons.prems(1) s1])
  have "\<exists>h' ds' res'. distances_nodes rm dl h1 ds1 res1 (concat (map postorder_rec ks)) = (h', Inr (ds', res'))
         \<and> solved n dl pos h1 ds1 res1 h' ds' res' ks"
    by (rule Cons.IH[OF rks]) (use Cons.prems(2) in auto)
  then obtain h2 ds2 res2 where
    run2: "distances_nodes rm dl h1 ds1 res1 (concat (map postorder_rec ks)) = (h2, Inr (ds2, res2))"
    and s2: "solved n dl pos h1 ds1 res1 h2 ds2 res2 ks" by auto
  have "distances_nodes rm dl h ds res (concat (map postorder_rec (k # ks))) = (h2, Inr (ds2, res2))"
    using run1 run2 by (simp add: distances_nodes_append)
  moreover have "solved n dl pos h ds res h2 ds2 res2 (k # ks)"
    by (rule solved_combine[OF Cons.prems(1) s1 s2])
  ultimately show ?case by blast
qed

lemma solved_subtree:
  "ready n rm pos h ds res [t] \<Longrightarrow>
   \<exists>h' ds' res'. distances_nodes rm dl h ds res (postorder_rec t) = (h', Inr (ds', res'))
      \<and> solved n dl pos h ds res h' ds' res' [t]"
proof (induction t arbitrary: h ds res)
  case (Node m ks)
  show ?case
  proof (cases "ks = []")
    case True
    with solved_tip[of n rm pos h ds res m dl] Node.prems show ?thesis by blast
  next
    case False
    have rks: "ready n rm pos h ds res ks" by (rule ready_kids[OF Node.prems False])
    have "\<exists>h' ds' res'. distances_nodes rm dl h ds res (concat (map postorder_rec ks)) = (h', Inr (ds', res'))
         \<and> solved n dl pos h ds res h' ds' res' ks"
      by (rule solved_forest[OF _ rks]) (rule Node.IH)
    then obtain h1 ds1 res1 where
      run1: "distances_nodes rm dl h ds res (concat (map postorder_rec ks)) = (h1, Inr (ds1, res1))"
      and s1: "solved n dl pos h ds res h1 ds1 res1 ks" by auto
    from solved_node[OF Node.prems False s1] obtain h2 ds2 res2 where
      node: "distances_node rm dl h1 ds1 res1 m = (h2, Inr (ds2, res2))"
      and s2: "solved n dl pos h ds res h2 ds2 res2 [Node m ks]" by auto
    have "distances_nodes rm dl h ds res (postorder_rec (Node m ks)) = (h2, Inr (ds2, res2))"
      using run1 node by (simp add: distances_nodes_append)
    with s2 show ?thesis by blast
  qed
qed

lemma tips_pop_inner:
  "Children (h c) \<noteq> [] \<Longrightarrow>
   tips_loop h (S @ [c]) out = tips_loop h (S @ rev (Children (h c))) out"
  by (subst tips_loop.simps) simp

lemma tips_pop_tip:
  "Children (h c) = [] \<Longrightarrow> tips_loop h (S @ [c]) out = tips_loop h S (out @ [c])"
  by (subst tips_loop.simps) simp

lemma tips_forest:
  assumes "\<And>t S out. t \<in> set ts \<Longrightarrow>
     tips_loop h (S @ [root t]) out = tips_loop h S (out @ tips_of t)"
  shows "tips_loop h (S @ rev (map root ts)) out =
         tips_loop h S (out @ concat (map tips_of ts))"
  using assms
proof (induction ts arbitrary: out)
  case Nil
  then show ?case by simp
next
  case (Cons t ts)
  have "tips_loop h (S @ rev (map root (t # ts))) out =
        tips_loop h ((S @ rev (map root ts)) @ [root t]) out" by simp
  also have "\<dots> = tips_loop h (S @ rev (map root ts)) (out @ tips_of t)"
    by (rule Cons.prems) simp
  also have "\<dots> = tips_loop h S ((out @ tips_of t) @ concat (map tips_of ts))"
    by (rule Cons.IH) (simp add: Cons.prems)
  finally show ?case by simp
qed

lemma tips_subtree:
  "tree_at h t \<Longrightarrow> tips_loop h (S @ [root t]) out = tips_loop h S (out @ tips_of t)"
proof (induction t arbitrary: S out)
  case (Node n ks)
  have ch: "Children (h n) = map root ks" using Node.prems by simp
  show ?case
  proof (cases "ks = []")
    case True
    then show ?thesis using tips_pop_tip[of h n S out] ch by simp
  next
    case False
    have sub: "tips_loop h (S @ [root k]) out = tips_loop h S (out @ tips_of k)"
      if "k \<in> set ks" for k S out
      using Node.IH[OF that] Node.prems that by simp
    have "tips_loop h (S @ [n]) out = tips_loop h (S @ rev (map root ks)) out"
      using tips_pop_inner[of h n S out] ch False by simp
    also have "\<dots> = tips_loop h S (out @ concat (map tips_of ks))"
      by (rule tips_forest) (rule sub)
    finally show ?thesis using False by simp
  qed
qed

lemma tips_tree:
  assumes "tree_at h t"
  shows "tips h (root t) False = Some (if kids t = [] then [] else tips_of t)"
proof (cases "kids t = []")
  case True
  then show ?thesis using tree_at_Children[OF assms] by (simp add: tips_def)
next
  case False
  have "tips_loop h ([] @ [root t]) [] = tips_loop h [] ([] @ tips_of t)"
    by (rule tips_subtree[OF assms])
  then have "tips_loop h [root t] [] = Some (tips_of t)"
    by (simp add: tips_loop.simps[of h "[]"])
  then show ?thesis using False tree_at_Children[OF assms] by (simp add: tips_def)
qed

lemma set_tip_slices_fields:
  "Children (set_tip_slices h i xs x) = Children (h x)
   \<and> Length (set_tip_slices h i xs x) = Length (h x)
   \<and> Parent (set_tip_slices h i xs x) = Parent (h x)"
proof (induction xs arbitrary: h i)
  case Nil
  then show ?case by simp
next
  case (Cons node rest)
  let ?h = "h(node := (h node)\<lparr>start_stop := Some (i, i + 1)\<rparr>)"
  have step: "set_tip_slices h i (node # rest) = set_tip_slices ?h (i + 1) rest" by simp
  have up: "Children (?h x) = Children (h x)" "Length (?h x) = Length (h x)"
    "Parent (?h x) = Parent (h x)" by simp_all
  note ih = Cons.IH[of ?h "i + 1"]
  show ?case unfolding step using ih up by (simp only:)
qed

lemma set_tip_slices_other: "x \<notin> set xs \<Longrightarrow> set_tip_slices h i xs x = h x"
  by (induction h i xs rule: set_tip_slices.induct) auto

lemma set_tip_slices_nth:
  "distinct xs \<Longrightarrow> j < length xs \<Longrightarrow>
   start_stop (set_tip_slices h i xs (xs ! j)) = Some (i + j, Suc (i + j))"
proof (induction h i xs arbitrary: j rule: set_tip_slices.induct)
  case (1 h i)
  then show ?case by simp
next
  case (2 h i node rest)
  show ?case
  proof (cases j)
    case 0
    have "node \<notin> set rest" using "2.prems" by simp
    then show ?thesis using 0 by (simp add: set_tip_slices_other)
  next
    case (Suc j')
    have "start_stop (set_tip_slices (h(node := (h node)\<lparr>start_stop := Some (i, i + 1)\<rparr>))
            (i + 1) rest (rest ! j')) = Some (i + 1 + j', Suc (i + 1 + j'))"
      by (rule "2.IH") (use "2.prems" Suc in auto)
    then show ?thesis using Suc by simp
  qed
qed

lemma result_map_of_spec:
  "\<forall>p < length ys. start_stop (h (ys ! p)) = Some (j + p, Suc (j + p)) \<Longrightarrow>
   \<exists>rm. result_map_of h j ys m = Inr rm
      \<and> (\<forall>i. map_of rm i = (if j \<le> i \<and> i < j + length ys then Some i else map_of m i))"
proof (induction ys arbitrary: j m)
  case Nil
  then show ?case by auto
next
  case (Cons y ys)
  have hd: "start_stop (h y) = Some (j, Suc j)" using Cons.prems by force
  have tl: "\<forall>p < length ys. start_stop (h (ys ! p)) = Some (Suc j + p, Suc (Suc j + p))"
  proof (intro allI impI)
    fix p assume "p < length ys"
    then have "Suc p < length (y # ys)" by simp
    with Cons.prems have "start_stop (h ((y # ys) ! Suc p)) = Some (j + Suc p, Suc (j + Suc p))"
      by blast
    then show "start_stop (h (ys ! p)) = Some (Suc j + p, Suc (Suc j + p))" by simp
  qed
  from Cons.IH[OF tl, of "AList.update j j m"] obtain rm where
    rm: "result_map_of h (Suc j) ys (AList.update j j m) = Inr rm"
    and sp: "\<forall>i. map_of rm i = (if Suc j \<le> i \<and> i < Suc j + length ys then Some i
                                  else map_of (AList.update j j m) i)" by blast
  have "result_map_of h j (y # ys) m = Inr rm" using hd rm by simp
  moreover have "map_of rm i = (if j \<le> i \<and> i < j + length (y # ys) then Some i else map_of m i)" for i
  proof (cases "i = j")
    case True
    then show ?thesis using sp by (simp add: update_conv')
  next
    case False
    then show ?thesis using sp by (auto simp: update_conv')
  qed
  ultimately show ?case by blast
qed

lemma common_prefix_comm: "common_prefix xs ys = common_prefix ys xs"
proof (induction xs arbitrary: ys)
  case Nil
  then show ?case by (cases ys) simp_all
next
  case (Cons x xs)
  note ih = Cons.IH
  show ?case
  proof (cases ys)
    case Nil
    then show ?thesis by simp
  next
    case (Cons y zs)
    then show ?thesis using ih[of zs] by simp
  qed
qed

lemma path_len_comm: "path_len h dl t a b = path_len h dl t b a"
  by (simp add: path_len_def Let_def common_prefix_comm[of "path_to t a"])

lemma path_edges_comm: "path_edges t a b = path_edges t b a"
  by (simp add: path_edges_def Let_def common_prefix_comm[of "path_to t a"])

lemma add_transpose_length: "length (add_transpose res) = length res"
  by (simp add: add_transpose_def)

lemma add_transpose_row:
  "i < length res \<Longrightarrow> length (add_transpose res ! i) = length res"
  by (simp add: add_transpose_def)

lemma add_transpose_nth:
  "i < length res \<Longrightarrow> j < length res \<Longrightarrow>
   add_transpose res ! i ! j = res ! i ! j + res ! j ! i"
  by (simp add: add_transpose_def)

lemma postorder_with_self:
  assumes "is_tree h t"
  shows "postorder h (root t) True = Some (Inr (postorder_rec t))"
proof (cases t)
  case (Node c ks)
  from assms Node have ta: "tree_at h (Node c ks)" and d: "distinct (nodes_of (Node c ks))"
    by (simp_all add: is_tree_def)
  have ch: "Children (h c) = map root ks" using ta by simp
  have sub: "postorder_loop h c True (stk @ [j, 0]) (root k) out =
             postorder_loop h c True (stk @ [Suc j]) c (out @ postorder_rec k)"
    if "k \<in> set ks" "kids k \<noteq> []" for k stk j out
  proof -
    have "tree_at h k" "Parent (h (root k)) = Some c" using ta that(1) by auto
    moreover have "c \<notin> set (nodes_of k)" using d that(1) by auto
    ultimately show ?thesis using postorder_subtree that(2) by simp
  qed
  have kid: "Children (h (root k)) = map root (kids k)" if "k \<in> set ks" for k
    using ta that tree_at_Children by auto
  have all: "postorder_loop h c True ([] @ [0]) c [] =
         postorder_loop h c True ([] @ [length ks]) c
           ([] @ concat (map postorder_rec (drop 0 ks)))"
    by (rule postorder_kids[OF ch sub kid]) simp_all
  have len: "length (Children (h c)) \<le> length ks" using ch by simp
  show ?thesis
    using all postorder_step_done[where h=h and self=c and i="length ks" and incl=True and stk="[]", OF len]
    by (simp add: postorder_def Node)
qed

lemma tip_tip_distances_lone:
  assumes it: "is_tree h t" and lone: "kids t = []"
  shows "tip_tip_distances h (root t) None dl = Some (h, Inr ([], []))"
proof -
  have ta: "tree_at h t" using it by (simp add: is_tree_def)
  have ch: "Children (h (root t)) = []" using tree_at_Children[OF ta] lone by simp
  have tp: "tips h (root t) False = Some []" using tips_tree[OF ta] lone by simp
  have po: "postorder h (root t) True = Some (Inr (postorder_rec t))"
    by (rule postorder_with_self[OF it])
  have pr: "postorder_rec t = [root t]" using lone by (cases t) simp
  show ?thesis
    by (simp add: tip_tip_distances_def tp po pr distances_node_def ch add_transpose_def)
qed

lemma tip_tip_distances_inner:
  assumes it: "is_tree h t" and ne: "kids t \<noteq> []"
  shows "\<exists>h' res. tip_tip_distances h (root t) None dl
                     = Some (h', Inr (add_transpose res, tips_of t))
      \<and> square (length (tips_of t)) res
      \<and> (\<forall>i < length (tips_of t). \<forall>j < length (tips_of t).
           res ! i ! j = (if i < j then path_len h dl t (tips_of t ! i) (tips_of t ! j) else 0))"
proof -
  define all where "all = tips_of t"
  define n where "n = length all"
  define h2 where "h2 = set_tip_slices h 0 all"
  define pos where "pos = (\<lambda>a. fst (the (start_stop (h2 a))))"
  have ta: "tree_at h t" and d: "distinct (nodes_of t)" using it by (simp_all add: is_tree_def)
  have dall: "distinct all" unfolding all_def by (rule distinct_tips[OF d])
  have ss: "start_stop (h2 (all ! j)) = Some (j, Suc j)" if "j < n" for j
    using set_tip_slices_nth[OF dall, of j h 0] that by (simp add: h2_def n_def)
  have posn: "pos (all ! j) = j" if "j < n" for j using ss[OF that] by (simp add: pos_def)
  have fields: "\<forall>x. Children (h2 x) = Children (h x) \<and> Parent (h2 x) = Parent (h x)"
    unfolding h2_def using set_tip_slices_fields[of h 0 all] by blast
  have len: "\<forall>x. Length (h2 x) = Length (h x)"
    unfolding h2_def using set_tip_slices_fields[of h 0 all] by blast
  have ta2: "tree_at h2 t" using tree_at_same[OF fields, of t] ta by simp
  have it2: "is_tree h2 t" using ta2 d by (simp add: is_tree_def)
  have tp: "tips h (root t) False = Some all" using tips_tree[OF ta] ne by (simp add: all_def)
  have "\<forall>p < length all. start_stop (h2 (all ! p)) = Some (0 + p, Suc (0 + p))"
    using ss by (simp add: n_def)
  from result_map_of_spec[OF this, of "[]"] obtain rm where
    rm: "result_map_of h2 0 all [] = Inr rm"
    and rmi: "\<And>i. i < n \<Longrightarrow> map_of rm i = Some i"
    by (auto simp: n_def)
  have po: "postorder h2 (root t) True = Some (Inr (postorder_rec t))"
    by (rule postorder_with_self[OF it2])
  have mem: "\<exists>j < n. a = all ! j" if "a \<in> set all" for a
    using that by (auto simp: in_set_conv_nth n_def)
  have rdy: "ready n rm pos h2 (replicate n 0) (replicate n (replicate n 0)) [t]"
    unfolding ready_def
  proof (intro conjI)
    show "length (replicate n (0 :: real)) = n" by simp
    show "square n (replicate n (replicate n 0))" by (simp add: square_def list_all_length)
    show "\<forall>i<n. map_of rm i = Some i" using rmi by simp
    show "\<forall>k \<in> set [t]. tree_at h2 k" using ta2 by simp
    show "distinct (concat (map nodes_of [t]))" using d by simp
    show "\<forall>a \<in> set (concat (map tips_of [t])).
            start_stop (h2 a) = Some (pos a, Suc (pos a)) \<and> pos a < n
            \<and> replicate n (0 :: real) ! pos a = 0"
    proof
      fix a assume "a \<in> set (concat (map tips_of [t]))"
      then have "a \<in> set all" by (simp add: all_def)
      then obtain j where j: "j < n" "a = all ! j" using mem by blast
      show "start_stop (h2 a) = Some (pos a, Suc (pos a)) \<and> pos a < n
            \<and> replicate n (0 :: real) ! pos a = 0"
        using j ss[OF j(1)] posn[OF j(1)] by simp
    qed
    have "map pos all = [0..<n]"
      by (rule nth_equalityI) (simp_all add: n_def posn)
    then show "\<exists>lo. map pos (concat (map tips_of [t])) =
                 [lo..<lo + length (concat (map tips_of [t]))]"
      by (intro exI[of _ 0]) (simp add: all_def n_def)
  qed
  from solved_subtree[OF rdy, of dl] obtain h3 ds' res' where
    run: "distances_nodes rm dl h2 (replicate n 0) (replicate n (replicate n 0)) (postorder_rec t)
            = (h3, Inr (ds', res'))"
    and sol: "solved n dl pos h2 (replicate n 0) (replicate n (replicate n 0)) h3 ds' res' [t]"
    by blast
  note s = solvedD[OF sol]
  have entry: "res' ! i ! j = (if i < j then path_len h dl t (all ! i) (all ! j) else 0)"
    if ij: "i < n" "j < n" for i j
  proof (cases "i < j")
    case True
    have ai: "all ! i \<in> set (tips_of t)" and aj: "all ! j \<in> set (tips_of t)"
      using ij by (simp_all add: all_def n_def)
    have "res' ! pos (all ! i) ! pos (all ! j) = path_len h2 dl t (all ! i) (all ! j)"
      by (rule s(11)[OF _ ai aj]) (use True posn ij in simp_all)
    then show ?thesis
      using True posn ij path_len_same_heap[OF len, of dl t "all ! i" "all ! j"] by simp
  next
    case False
    have "res' ! i ! j = replicate n (replicate n 0) ! i ! j"
      by (rule s(12)[OF ij]) (use False in simp)
    then show ?thesis using ij False by simp
  qed
  have "tip_tip_distances h (root t) None dl = Some (h3, Inr (add_transpose res', all))"
    unfolding tip_tip_distances_def
    by (simp add: tp Let_def h2_def[symmetric] rm po n_def[symmetric] run)
  then show ?thesis using s(2) entry unfolding all_def[symmetric] n_def[symmetric] by blast
qed

text \<open>
  C6. For every tree held in the store, \<open>tip_tip_distances\<close> without endpoints returns:
  the tip order is the list of the tips of the tree, left to right (empty for a lone
  root), the result is a square matrix over that order, it is symmetric and its diagonal
  is zero, and when every branch of the tree has length 1 the entry of two tips is the
  number of edges of the path that connects them.
\<close>

theorem tip_tip_distances_matrix:
  assumes "is_tree h t"
  shows "\<exists>h' M. tip_tip_distances h (root t) None default_length
                   = Some (h', Inr (M, if kids t = [] then [] else tips_of t))
     \<and> length M = length (if kids t = [] then [] else tips_of t)
     \<and> (\<forall>i < length M. length (M ! i) = length M \<and> M ! i ! i = 0
          \<and> (\<forall>j < length M. M ! i ! j = M ! j ! i
               \<and> ((\<forall>x \<in> set (nodes_of t) - {root t}. Length (h x) = Some 1)
                    \<longrightarrow> M ! i ! j = real (path_edges t (tips_of t ! i) (tips_of t ! j)))))"
proof (cases "kids t = []")
  case True
  show ?thesis using tip_tip_distances_lone[OF assms True, of default_length] True by simp
next
  case False
  let ?n = "length (tips_of t)"
  from tip_tip_distances_inner[OF assms False, of default_length] obtain h' res where
    run: "tip_tip_distances h (root t) None default_length
            = Some (h', Inr (add_transpose res, tips_of t))"
    and sq: "square ?n res"
    and entry: "\<And>i j. i < ?n \<Longrightarrow> j < ?n \<Longrightarrow>
       res ! i ! j = (if i < j then path_len h default_length t (tips_of t ! i) (tips_of t ! j)
                      else 0)"
    by blast
  have d: "distinct (nodes_of t)" using assms by (simp add: is_tree_def)
  have lr: "length res = ?n" using sq by (simp add: square_def)
  let ?M = "add_transpose res"
  have lM: "length ?M = ?n" by (simp add: add_transpose_length lr)
  have row: "length (?M ! i) = ?n" if "i < ?n" for i
    using add_transpose_row[of i res] that lr by simp
  have nth: "?M ! i ! j = res ! i ! j + res ! j ! i" if "i < ?n" "j < ?n" for i j
    using add_transpose_nth[of i res j] that lr by simp
  have diag: "?M ! i ! i = 0" if "i < ?n" for i
    using nth[OF that that] entry[OF that that] by simp
  have sym: "?M ! i ! j = ?M ! j ! i" if "i < ?n" "j < ?n" for i j
    using nth[OF that] nth[OF that(2,1)] by simp
  have unit: "?M ! i ! j = real (path_edges t (tips_of t ! i) (tips_of t ! j))"
    if ij: "i < ?n" "j < ?n"
      and one: "\<forall>x \<in> set (nodes_of t) - {root t}. Length (h x) = Some 1" for i j
  proof -
    have ai: "tips_of t ! i \<in> set (nodes_of t)" and aj: "tips_of t ! j \<in> set (nodes_of t)"
      using ij tips_subset_nodes[of t] nth_mem by blast+
    have pl: "path_len h default_length t a b = real (path_edges t a b)"
      if "a \<in> set (nodes_of t)" "b \<in> set (nodes_of t)" for a b
      by (rule path_len_unit[OF d one that])
    consider "i < j" | "j < i" | "i = j" by linarith
    then show ?thesis
    proof cases
      case 1
      then show ?thesis using nth[OF ij] entry[OF ij] entry[OF ij(2,1)] pl[OF ai aj] by simp
    next
      case 2
      then show ?thesis
        using nth[OF ij] entry[OF ij] entry[OF ij(2,1)] pl[OF aj ai]
          path_edges_comm[of t "tips_of t ! i" "tips_of t ! j"] by simp
    next
      case 3
      then show ?thesis using diag[OF ij(1)] by (simp add: path_edges_same)
    qed
  qed
  show ?thesis
    using run lM row diag sym unit False by (intro exI[of _ h'] exI[of _ ?M]) simp
qed

lemma abc_heap_simps:
  "abc_heap 0 = (TreeNode None (Some 0) None)\<lparr>Children := [2, 3]\<rparr>"
  "abc_heap 2 = TreeNode (Some ''A'') (Some 1) (Some 0)"
  "abc_heap 3 = (TreeNode None (Some 1) (Some 0))\<lparr>Children := [4, 5]\<rparr>"
  "abc_heap 4 = TreeNode (Some ''B'') (Some 1) (Some 3)"
  "abc_heap 5 = TreeNode (Some ''C'') (Some 1) (Some 3)"
  by (simp_all add: abc_heap_def)

lemma abc_is_tree: "is_tree abc_heap abc_tree"
  by (simp add: is_tree_def abc_tree_def abc_heap_simps TreeNode_def)

lemma abc_lengths: "\<forall>x \<in> set (nodes_of abc_tree) - {root abc_tree}. Length (abc_heap x) = Some 1"
  by (simp add: abc_tree_def abc_heap_simps TreeNode_def)

lemma abc_order: "(if kids abc_tree = [] then [] else tips_of abc_tree) = [2, 4, 5]"
  by (simp add: abc_tree_def)

lemma abc_tips: "tips_of abc_tree = [2, 4, 5]"
  by (simp add: abc_tree_def)

lemma abc_root: "root abc_tree = 0"
  by (simp add: abc_tree_def)

lemma abc_path_edges:
  "path_edges abc_tree 2 4 = 3" "path_edges abc_tree 2 5 = 3" "path_edges abc_tree 4 5 = 2"
  by (simp_all add: abc_tree_def path_edges_def path_to.simps)

lemma list_of_three: "length xs = 3 \<Longrightarrow> xs = [xs ! 0, xs ! 1, xs ! 2]"
  by (auto simp: length_Suc_conv numeral_3_eq_3)

theorem tip_tip_distances_matrix_witness:
  "is_tree abc_heap abc_tree
   \<and> list_all (\<lambda>x. Length (abc_heap x) = Some 1) [2, 3, 4, 5]
   \<and> (\<exists>h'. tip_tip_distances abc_heap 0 None 1
              = Some (h', Inr ([[0, 3, 3], [3, 0, 2], [3, 2, 0]], [2, 4, 5])))"
proof -
  from tip_tip_distances_matrix[OF abc_is_tree, of 1] obtain h' M where
    run: "tip_tip_distances abc_heap (root abc_tree) None 1
            = Some (h', Inr (M, if kids abc_tree = [] then [] else tips_of abc_tree))"
    and len: "length M = length (if kids abc_tree = [] then [] else tips_of abc_tree)"
    and all: "\<forall>i < length M. length (M ! i) = length M \<and> M ! i ! i = 0
          \<and> (\<forall>j < length M. M ! i ! j = M ! j ! i
               \<and> ((\<forall>x \<in> set (nodes_of abc_tree) - {root abc_tree}. Length (abc_heap x) = Some 1)
                    \<longrightarrow> M ! i ! j = real (path_edges abc_tree (tips_of abc_tree ! i)
                                            (tips_of abc_tree ! j))))"
    by blast
  have len3: "length M = 3" using len unfolding abc_order by simp
  have A: "length (M ! i) = length M \<and> M ! i ! i = 0
          \<and> (\<forall>j < length M. M ! i ! j = M ! j ! i
               \<and> ((\<forall>x \<in> set (nodes_of abc_tree) - {root abc_tree}. Length (abc_heap x) = Some 1)
                    \<longrightarrow> M ! i ! j = real (path_edges abc_tree (tips_of abc_tree ! i)
                                            (tips_of abc_tree ! j))))"
    if "i < length M" for i using all that by blast
  have rows: "length (M ! i) = 3" if "i < 3" for i using A[of i] that len3 by simp
  have diag: "M ! i ! i = 0" if "i < 3" for i using A[of i] that len3 by simp
  have B: "M ! i ! j = M ! j ! i
           \<and> M ! i ! j = real (path_edges abc_tree (tips_of abc_tree ! i) (tips_of abc_tree ! j))"
    if "i < 3" "j < 3" for i j
  proof -
    have "i < length M" "j < length M" using that len3 by simp_all
    with A[of i] abc_lengths show ?thesis by blast
  qed
  have e01: "M ! 0 ! 1 = 3" using B[of 0 1] unfolding abc_tips by (simp add: abc_path_edges)
  have e02: "M ! 0 ! 2 = 3" using B[of 0 2] unfolding abc_tips by (simp add: abc_path_edges)
  have e12: "M ! 1 ! 2 = 2" using B[of 1 2] unfolding abc_tips by (simp add: abc_path_edges)
  have e10: "M ! 1 ! 0 = 3" using B[of 1 0] e01 by simp
  have e20: "M ! 2 ! 0 = 3" using B[of 2 0] e02 by simp
  have e21: "M ! 2 ! 1 = 2" using B[of 2 1] e12 by simp
  have r0: "M ! 0 = [0, 3, 3]"
    using list_of_three[OF rows[of 0]] diag[of 0] e01 e02 by simp
  have r1: "M ! 1 = [3, 0, 2]"
    using list_of_three[OF rows[of 1]] diag[of 1] e10 e12 by simp
  have r2: "M ! 2 = [3, 2, 0]"
    using list_of_three[OF rows[of 2]] diag[of 2] e20 e21 by simp
  have M: "M = [[0, 3, 3], [3, 0, 2], [3, 2, 0]]"
    using list_of_three[OF len3] r0 r1 r2 by simp
  have lens: "list_all (\<lambda>x. Length (abc_heap x) = Some 1) [2, 3, 4, 5]"
    by (simp add: abc_heap_simps TreeNode_def)
  have "\<exists>h'. tip_tip_distances abc_heap 0 None 1
              = Some (h', Inr ([[0, 3, 3], [3, 0, 2], [3, 2, 0]], [2, 4, 5]))"
    using run unfolding abc_order abc_root M by blast
  with abc_is_tree lens show ?thesis by blast
qed

end
